theory Spec2Isabelle
  imports Complex_Main "HOL-Library.Multiset"
begin

section \<open>Strings\<close>

text \<open>
  A JavaScript string is a sequence of UTF-16 code units. The embedding uses
  \<^typ>\<open>string\<close>: each \<^typ>\<open>char\<close> is one code unit in the range U+0000 to
  U+00FF, so the model covers the strings whose code units all lie in that range.
\<close>

abbreviation LF :: char where "LF \<equiv> CHR 0x0A"
abbreviation CR :: char where "CR \<equiv> CHR 0x0D"
abbreviation DQ :: char where "DQ \<equiv> CHR 0x22"
abbreviation COMMA :: char where "COMMA \<equiv> CHR 0x2C"

text \<open>
  The characters that \<open>String.prototype.trim\<close> strips and that the regular
  expression class \<open>\s\<close> matches (WhiteSpace and LineTerminator of ECMAScript), as far as
  they lie below U+0100: TAB, LF, VT, FF, CR, SP and NBSP.
\<close>

definition is_ws :: "char \<Rightarrow> bool" where
  "is_ws c \<longleftrightarrow>
     c = CHR 0x09 \<or> c = CHR 0x0A \<or> c = CHR 0x0B \<or> c = CHR 0x0C \<or> c = CHR 0x0D \<or>
     c = CHR 0x20 \<or> c = CHR 0xA0"

definition trim :: "string \<Rightarrow> string" where
  "trim s = rev (dropWhile is_ws (rev (dropWhile is_ws s)))"

text \<open>
  \<open>String.prototype.toLowerCase\<close> on one code unit below U+0100: the letters A to Z
  and the Latin-1 capitals U+00C0 to U+00DE (without the multiplication sign U+00D7)
  move up by 32; everything else is unchanged.
\<close>

definition lower_char :: "char \<Rightarrow> char" where
  "lower_char c =
     (let n = (of_char c :: nat)
      in if (65 \<le> n \<and> n \<le> 90) \<or> (192 \<le> n \<and> n \<le> 222 \<and> n \<noteq> 215)
         then char_of (n + 32) else c)"

definition toLowerCase :: "string \<Rightarrow> string" where
  "toLowerCase s = map lower_char s"

text \<open>
  \<open>text.split(/\r?\n/)\<close>: the separator is a line feed, or a carriage return
  directly followed by a line feed. A carriage return on its own stays in the line. The
  result always has at least one element (the empty string splits into one empty line).
\<close>

fun split_lines :: "string \<Rightarrow> string list" where
  "split_lines [] = [[]]"
| "split_lines [c] = (if c = LF then [[], []] else [[c]])"
| "split_lines (c # d # cs) =
     (if c = LF then [] # split_lines (d # cs)
      else if c = CR \<and> d = LF then [] # split_lines cs
      else (case split_lines (d # cs) of
              l # ls \<Rightarrow> (c # l) # ls
            | [] \<Rightarrow> [[c]]))"

section \<open>The tabular parser (comparision.js)\<close>

subsection \<open>splitCSVLine\<close>

text \<open>
  The loop of \<open>splitCSVLine\<close> over the characters of the line, with its three
  variables: the fields pushed so far (\<open>out\<close>), the field being read (\<open>cur\<close>) and the
  quote flag (\<open>inQ\<close>). A double quote toggles the flag and is skipped; a comma outside
  quotes ends the field; every other character is appended to the field. After the
  loop the last field is pushed.
\<close>

fun splitCSVLine_loop :: "string \<Rightarrow> string list \<Rightarrow> string \<Rightarrow> bool \<Rightarrow> string list" where
  "splitCSVLine_loop [] out cur inQ = out @ [cur]"
| "splitCSVLine_loop (ch # rest) out cur inQ =
     (if ch = DQ then splitCSVLine_loop rest out cur (\<not> inQ)
      else if ch = COMMA \<and> \<not> inQ then splitCSVLine_loop rest (out @ [cur]) [] inQ
      else splitCSVLine_loop rest out (cur @ [ch]) inQ)"

text \<open>
  The final \<open>out.map(s => s === undefined ? '' : s)\<close> maps every field to itself:
  the fields are strings, never \<open>undefined\<close>.
\<close>

definition splitCSVLine :: "string \<Rightarrow> string list" where
  "splitCSVLine line = map (\<lambda>s. s) (splitCSVLine_loop line [] [] False)"

subsection \<open>Row objects\<close>

text \<open>
  A Row is the object \<open>obj = {}\<close> after the assignments \<open>obj[key] = value\<close> of
  \<open>parseCSV\<close>. It is modelled by the list of its own properties in the order in which
  \<open>Object.keys\<close> enumerates them: the keys that are array indices (canonical decimal
  numerals up to \<open>2^32 - 2\<close>) first, in ascending numeric order, then the other keys
  in the order of their creation.
\<close>

type_synonym row = "(string \<times> string) list"

definition is_digit :: "char \<Rightarrow> bool" where
  "is_digit c \<longleftrightarrow> 48 \<le> (of_char c :: nat) \<and> (of_char c :: nat) \<le> 57"

definition dec_value :: "string \<Rightarrow> nat" where
  "dec_value s = foldl (\<lambda>n c. 10 * n + ((of_char c :: nat) - 48)) 0 s"

definition is_array_index :: "string \<Rightarrow> bool" where
  "is_array_index k \<longleftrightarrow>
     k \<noteq> [] \<and> list_all is_digit k \<and> (k = ''0'' \<or> hd k \<noteq> CHR ''0'') \<and>
     dec_value k \<le> 4294967294"

text \<open>
  The names of the properties that every object created by \<open>{}\<close> inherits from
  \<open>Object.prototype\<close>. The operator \<open>in\<close> sees them, \<open>Object.keys\<close> does not.
\<close>

definition proto_names :: "string list" where
  "proto_names =
     [''constructor'', ''__defineGetter__'', ''__defineSetter__'', ''hasOwnProperty'',
      ''__lookupGetter__'', ''__lookupSetter__'', ''isPrototypeOf'',
      ''propertyIsEnumerable'', ''toString'', ''valueOf'', ''__proto__'',
      ''toLocaleString'']"

definition keys :: "row \<Rightarrow> string list" where
  "keys r = map fst r"

fun update_own :: "row \<Rightarrow> string \<Rightarrow> string \<Rightarrow> row" where
  "update_own [] k v = []"
| "update_own ((k', v') # r) k v =
     (if k' = k then (k', v) # r else (k', v') # update_own r k v)"

fun insert_index :: "row \<Rightarrow> string \<Rightarrow> string \<Rightarrow> row" where
  "insert_index [] k v = [(k, v)]"
| "insert_index ((k', v') # r) k v =
     (if is_array_index k' \<and> dec_value k' < dec_value k
      then (k', v') # insert_index r k v
      else (k, v) # (k', v') # r)"

text \<open>
  The assignment \<open>obj[k] = v\<close> with a string \<open>v\<close>. The key \<open>__proto__\<close> reaches the
  setter inherited from \<open>Object.prototype\<close>, which ignores a value that is neither an
  object nor \<open>null\<close>: no property is created. An existing own property keeps its
  place and takes the new value. A new property is placed as \<open>Object.keys\<close> will
  enumerate it.
\<close>

definition obj_set :: "row \<Rightarrow> string \<Rightarrow> string \<Rightarrow> row" where
  "obj_set r k v =
     (if k = ''__proto__'' then r
      else if k \<in> set (keys r) then update_own r k v
      else if is_array_index k then insert_index r k v
      else r @ [(k, v)])"

subsection \<open>parseCSV\<close>

text \<open>
  The inner loop \<open>for (j = 0; j < headers.length; j++) obj[headers[j].trim()] = ...\<close>.
  The test \<open>cols[j] !== undefined\<close> is the test that \<open>j\<close> is inside \<open>cols\<close>.
\<close>

definition fill_row :: "string list \<Rightarrow> string list \<Rightarrow> row" where
  "fill_row headers cols =
     fold (\<lambda>j obj. obj_set obj (trim (headers ! j))
                      (if j < length cols then trim (cols ! j) else []))
          [0 ..< length headers] []"

definition count_quotes :: "string \<Rightarrow> nat" where
  "count_quotes line = length (filter (\<lambda>c. c = DQ) line)"

text \<open>
  The outer loop over \<open>lines[1..]\<close>, with the buffer \<open>line\<close> and the rows pushed so far.
  A buffer with an odd number of double quotes takes a line feed and waits for the next
  line; a buffer with an even number is a complete record, which is split, pushed when
  it has as many fields as the header, and reset.
\<close>

fun parseCSV_loop :: "string list \<Rightarrow> string list \<Rightarrow> string \<Rightarrow> row list \<Rightarrow> row list" where
  "parseCSV_loop headers [] line outRows = outRows"
| "parseCSV_loop headers (l # ls) line outRows =
     (let line1 = line @ l;
          openQuotes = count_quotes line1
      in if openQuotes mod 2 \<noteq> 0 then parseCSV_loop headers ls (line1 @ [LF]) outRows
         else
           (let cols = splitCSVLine line1
            in if length cols = length headers
               then parseCSV_loop headers ls [] (outRows @ [fill_row headers cols])
               else parseCSV_loop headers ls [] outRows))"

definition parseCSV :: "string \<Rightarrow> row list" where
  "parseCSV text =
     (let headers = splitCSVLine (hd (split_lines text));
          lines = split_lines text
      in parseCSV_loop headers (tl lines) [] [])"

subsection \<open>getVal\<close>

text \<open>
  What a property read \<open>row[n]\<close> gives on a Row: the string of an own property, a
  member inherited from \<open>Object.prototype\<close> (a function, or the prototype object
  itself for \<open>__proto__\<close>), or \<open>undefined\<close>.
\<close>

datatype prop_value = Undefined | Str string | Inherited string

text \<open>
  \<open>n in row\<close> holds for the own keys and for the inherited names; \<open>row[n]\<close> reads
  the own property first.
\<close>

definition has_property :: "row \<Rightarrow> string \<Rightarrow> bool" where
  "has_property r n \<longleftrightarrow> n \<in> set (keys r) \<or> n \<in> set proto_names"

definition get_property :: "row \<Rightarrow> string \<Rightarrow> prop_value" where
  "get_property r n =
     (case map_of r n of
        Some v \<Rightarrow> Str v
      | None \<Rightarrow> if n \<in> set proto_names then Inherited n else Undefined)"

text \<open>
  The inner loop \<open>for (const k of Object.keys(row))\<close> of \<open>getVal\<close>: the value
  under the first own key whose lowercase form is \<open>lower\<close>, or nothing.
\<close>

fun getVal_keys :: "row \<Rightarrow> string \<Rightarrow> string list \<Rightarrow> prop_value option" where
  "getVal_keys row lower [] = None"
| "getVal_keys row lower (k # ks) =
     (if toLowerCase k = lower then Some (get_property row k) else getVal_keys row lower ks)"

text \<open>
  The outer loop \<open>for (const n of names)\<close>: each candidate is tried with \<open>in\<close>, then
  case-insensitively against the own keys, before the next candidate; the empty string
  when the candidates are used up.
\<close>

fun getVal :: "row \<Rightarrow> string list \<Rightarrow> prop_value" where
  "getVal row [] = Str []"
| "getVal row (n # names) =
     (if has_property row n then get_property row n
      else (case getVal_keys row (toLowerCase n) (keys row) of
              Some v \<Rightarrow> v
            | None \<Rightarrow> getVal row names))"

subsection \<open>normalizeName\<close>

text \<open>
  An argument of \<open>normalizeName\<close> or \<open>safeUrl\<close>: \<open>undefined\<close>, \<open>null\<close>, a string,
  or a value of another type, given by the string that \<open>'' + s\<close> converts it to (a
  value whose conversion throws, such as a Symbol, is outside the model).
\<close>

datatype jsvalue = JsUndefined | JsNull | JsString string | JsOther string

text \<open>
  \<open>s.replace(/\s+/g, ' ')\<close>: every maximal run of whitespace becomes one space.
\<close>

function collapse_ws :: "string \<Rightarrow> string" where
  "collapse_ws [] = []"
| "collapse_ws (c # cs) =
     (if is_ws c then CHR '' '' # collapse_ws (dropWhile is_ws cs) else c # collapse_ws cs)"
  by pat_completeness auto
termination
  by (relation "measure length") (auto simp: length_dropWhile_le less_Suc_eq_le)

definition normalizeName :: "jsvalue \<Rightarrow> string" where
  "normalizeName s =
     (case s of
        JsUndefined \<Rightarrow> []
      | JsNull \<Rightarrow> []
      | JsString str \<Rightarrow> toLowerCase (collapse_ws (trim str))
      | JsOther str \<Rightarrow> toLowerCase (collapse_ws (trim str)))"

section \<open>safeUrl\<close>

definition startsWith :: "string \<Rightarrow> string \<Rightarrow> bool" where
  "startsWith s p \<longleftrightarrow> take (length p) s = p"

text \<open>
  The regular expression \<open>/^[\w\-\.]+\.[a-z]{2,}/i\<close>: one or more characters of the
  class (letters, digits, underscore, hyphen, dot), then a dot, then at least two
  letters. It matches when some dot that is not the first character, with only class
  characters before it, is followed by two letters: \<open>domain_tail\<close> looks for that dot
  after the first character.
\<close>

definition is_ascii_letter :: "char \<Rightarrow> bool" where
  "is_ascii_letter c \<longleftrightarrow>
     (let n = (of_char c :: nat) in (65 \<le> n \<and> n \<le> 90) \<or> (97 \<le> n \<and> n \<le> 122))"

definition is_host_char :: "char \<Rightarrow> bool" where
  "is_host_char c \<longleftrightarrow>
     is_ascii_letter c \<or> is_digit c \<or> c = CHR ''_'' \<or> c = CHR ''-'' \<or> c = CHR ''.''"

fun domain_tail :: "string \<Rightarrow> bool" where
  "domain_tail [] = False"
| "domain_tail (c # cs) =
     ((c = CHR ''.'' \<and>
        (case cs of a # b # _ \<Rightarrow> is_ascii_letter a \<and> is_ascii_letter b | _ \<Rightarrow> False)) \<or>
      (is_host_char c \<and> domain_tail cs))"

definition domain_shaped :: "string \<Rightarrow> bool" where
  "domain_shaped s = (case s of [] \<Rightarrow> False | c # cs \<Rightarrow> is_host_char c \<and> domain_tail cs)"

text \<open>
  \<open>safeUrl\<close>: the guard \<open>!url || typeof url !== "string"\<close> lets only non-empty
  strings through.
\<close>

definition safeUrl :: "jsvalue \<Rightarrow> string" where
  "safeUrl v =
     (case v of
        JsString s \<Rightarrow>
          if s = [] then []
          else
            (let url = trim s
             in if startsWith url ''data:'' \<or> startsWith url ''http://'' \<or>
                   startsWith url ''https://'' \<or> startsWith url ''blob:''
                then url
                else if startsWith url ''/'' \<or> startsWith url ''./'' \<or> startsWith url ''../''
                then url
                else if domain_shaped url then ''https://'' @ url
                else [])
      | _ \<Rightarrow> [])"

section \<open>applyClientSort\<close>

subsection \<open>Numbers\<close>

text \<open>
  A JavaScript number: NaN, the two infinities, or a finite binary64 value, kept as
  the rational it denotes (the sign of zero is not kept: nothing below tells the two
  zeros apart).
\<close>

datatype jsnum = NaN | NegInf | Fin rat | PosInf



















subsection \<open>Property keys\<close>





subsection \<open>The comparison function\<close>














subsection \<open>Array.prototype.sort\<close>

text \<open>
  \<open>Array.prototype.sort\<close> with a comparison function, as ECMAScript specifies it
  (SortIndexedProperties). The sort sees the comparison function through SortCompare,
  which turns a result that is NaN into zero, and only the sign of the result counts
  (\<open>sort_sign\<close>). When SortCompare is a consistent comparator for the elements
  (reflexive, symmetric and transitive where it is zero, transitive where it is
  negative and where it is positive), the result is the one stable sorted order;
  \<open>stable_sort\<close>, an insertion sort that places an element before the first element
  it is not greater than, computes it. When SortCompare is not consistent the order is
  implementation-defined: the engine chooses a permutation of the elements. The engine
  is a parameter, \<open>engine\<close>, which returns the positions of the elements in the order
  of its choice.
\<close>

definition sort_sign :: "jsnum \<Rightarrow> int" where
  "sort_sign v =
     (case v of
        NaN \<Rightarrow> 0
      | NegInf \<Rightarrow> - 1
      | PosInf \<Rightarrow> 1
      | Fin q \<Rightarrow> if q < 0 then - 1 else if q = 0 then 0 else 1)"

definition consistent_on :: "('a \<Rightarrow> 'a \<Rightarrow> jsnum) \<Rightarrow> 'a list \<Rightarrow> bool" where
  "consistent_on cmp xs \<longleftrightarrow>
     (\<forall>a \<in> set xs. \<forall>b \<in> set xs. \<forall>c \<in> set xs.
        sort_sign (cmp a a) = 0 \<and>
        (sort_sign (cmp a b) = 0 \<longrightarrow> sort_sign (cmp b a) = 0) \<and>
        (sort_sign (cmp a b) = 0 \<and> sort_sign (cmp b c) = 0 \<longrightarrow> sort_sign (cmp a c) = 0) \<and>
        (sort_sign (cmp a b) < 0 \<and> sort_sign (cmp b c) < 0 \<longrightarrow> sort_sign (cmp a c) < 0) \<and>
        (0 < sort_sign (cmp a b) \<and> 0 < sort_sign (cmp b c) \<longrightarrow> 0 < sort_sign (cmp a c)))"

fun insert_sorted :: "('a \<Rightarrow> 'a \<Rightarrow> jsnum) \<Rightarrow> 'a \<Rightarrow> 'a list \<Rightarrow> 'a list" where
  "insert_sorted cmp x [] = [x]"
| "insert_sorted cmp x (y # ys) =
     (if 0 < sort_sign (cmp x y) then y # insert_sorted cmp x ys else x # y # ys)"

definition stable_sort :: "('a \<Rightarrow> 'a \<Rightarrow> jsnum) \<Rightarrow> 'a list \<Rightarrow> 'a list" where
  "stable_sort cmp xs = foldr (insert_sorted cmp) xs []"

definition is_permutation :: "nat list \<Rightarrow> nat \<Rightarrow> bool" where
  "is_permutation p n \<longleftrightarrow> sort p = [0 ..< n]"

definition array_sort ::
  "(('a \<Rightarrow> 'a \<Rightarrow> jsnum) \<Rightarrow> 'a list \<Rightarrow> nat list) \<Rightarrow> ('a \<Rightarrow> 'a \<Rightarrow> jsnum) \<Rightarrow> 'a list \<Rightarrow> 'a list" where
  "array_sort engine cmp xs =
     (if consistent_on cmp xs then stable_sort cmp xs
      else
        (let p = engine cmp xs
         in if is_permutation p (length xs) then map (\<lambda>i. xs ! i) p else stable_sort cmp xs))"

subsection \<open>applyClientSort\<close>





section \<open>Notions of the specification\<close>

subsection \<open>Logical records\<close>

text \<open>
  The records that the outer loop of \<open>parseCSV\<close> completes, given the lines still to
  read and the buffer: a line is added to the buffer, and the buffer is a record as
  soon as it holds an even number of double quotes. A buffer left incomplete at the end
  of the text is not a record.
\<close>

fun logical_records :: "string list \<Rightarrow> string \<Rightarrow> string list" where
  "logical_records [] buf = []"
| "logical_records (l # ls) buf =
     (if count_quotes (buf @ l) mod 2 \<noteq> 0 then logical_records ls (buf @ l @ [LF])
      else (buf @ l) # logical_records ls [])"

subsection \<open>Headers, body, plain fields, records\<close>

text \<open>
  The header fields and the body lines of a CSV text, as \<open>parseCSV\<close> takes them: the
  first line of \<open>text.split(/\r?\n/)\<close> split by \<open>splitCSVLine\<close>, and the lines
  after it. \<open>comma_fields\<close> is the plain splitting of a line at every comma, with no
  regard to quotes; \<open>join_lf\<close> joins physical lines with a line feed between them;
  \<open>record_rows\<close> is the Table that a list of complete records gives: the records
  with as many fields as the header, each zipped with the header.
\<close>

fun comma_fields :: "string \<Rightarrow> string list" where
  "comma_fields [] = [[]]"
| "comma_fields (c # cs) =
     (if c = COMMA then [] # comma_fields cs
      else (case comma_fields cs of f # fs \<Rightarrow> (c # f) # fs | [] \<Rightarrow> [[c]]))"

fun join_lf :: "string list \<Rightarrow> string" where
  "join_lf [] = []"
| "join_lf [l] = l"
| "join_lf (l # l' # ls) = l @ [LF] @ join_lf (l' # ls)"

definition record_rows :: "string list \<Rightarrow> string list \<Rightarrow> row list" where
  "record_rows headers recs =
     map (\<lambda>r. fill_row headers (splitCSVLine r))
         (filter (\<lambda>r. length (splitCSVLine r) = length headers) recs)"

definition csv_headers :: "string \<Rightarrow> string list" where
  "csv_headers text = splitCSVLine (hd (split_lines text))"

definition csv_body :: "string \<Rightarrow> string list" where
  "csv_body text = tl (split_lines text)"

text \<open>
  The contract of the tolerant accessor in the words of the specification: a
  candidate matches a row by an exact key match or else by a case-insensitive match
  across the row's keys, and the accessor returns the value of the first candidate
  that matches, the empty string when none does.
\<close>

definition candidate_match :: "row \<Rightarrow> string \<Rightarrow> string option" where
  "candidate_match row n =
     (case map_of row n of
        Some v \<Rightarrow> Some v
      | None \<Rightarrow>
          (case find (\<lambda>k. toLowerCase k = toLowerCase n) (keys row) of
             Some k \<Rightarrow> map_of row k
           | None \<Rightarrow> None))"

fun first_match :: "row \<Rightarrow> string list \<Rightarrow> string" where
  "first_match row [] = []"
| "first_match row (n # names) =
     (case candidate_match row n of Some v \<Rightarrow> v | None \<Rightarrow> first_match row names)"

subsection \<open>Trimmed text and body lines\<close>

text \<open>
  \<open>blank\<close> names the whitespace characters below U+0100 by their code points.
  \<open>trimmed_form s v\<close> says that \<open>v\<close> is \<open>s\<close> without the whitespace before and
  after it: \<open>s\<close> is whitespace, then \<open>v\<close>, then whitespace, and \<open>v\<close> neither begins
  nor ends with whitespace. A text ends with a line terminator when its last character
  is a line feed; the body lines of a text are the lines after the header, where a
  line terminator at the end of the text starts no further line.
\<close>

definition blank :: "char \<Rightarrow> bool" where
  "blank c \<longleftrightarrow> (of_char c :: nat) \<in> {9, 10, 11, 12, 13, 32, 160}"

definition trimmed_form :: "string \<Rightarrow> string \<Rightarrow> bool" where
  "trimmed_form s v \<longleftrightarrow>
     (\<exists>pre post. s = pre @ v @ post \<and> list_all blank pre \<and> list_all blank post \<and>
        (v = [] \<or> (\<not> blank (hd v) \<and> \<not> blank (last v))))"

definition ends_with_newline :: "string \<Rightarrow> bool" where
  "ends_with_newline text \<longleftrightarrow> text \<noteq> [] \<and> last text = LF"

definition body_lines :: "string \<Rightarrow> string list" where
  "body_lines text = (if ends_with_newline text then butlast (csv_body text) else csv_body text)"

subsection \<open>Words and schemes\<close>

text \<open>
  \<open>trimEnd\<close> strips trailing whitespace. \<open>ws_words\<close> are the maximal runs of
  characters other than whitespace, and \<open>join_sp\<close> joins words with single spaces:
  the trimmed, single-spaced form of a string is \<open>join_sp (ws_words s)\<close>.
\<close>

definition trimEnd :: "string \<Rightarrow> string" where
  "trimEnd s = rev (dropWhile is_ws (rev s))"

function ws_words :: "string \<Rightarrow> string list" where
  "ws_words s =
     (case dropWhile is_ws s of
        [] \<Rightarrow> []
      | c # cs \<Rightarrow> (c # takeWhile (\<lambda>x. \<not> is_ws x) cs) # ws_words (dropWhile (\<lambda>x. \<not> is_ws x) cs))"
  by pat_completeness auto
termination
proof (relation "measure length")
  fix s :: string and c cs
  assume a: "dropWhile is_ws s = c # cs"
  have "length (dropWhile (\<lambda>x. \<not> is_ws x) cs) \<le> length cs" by (rule length_dropWhile_le)
  moreover have "length (c # cs) \<le> length s" using a length_dropWhile_le [of is_ws s] by simp
  ultimately show "(dropWhile (\<lambda>x. \<not> is_ws x) cs, s) \<in> measure length" by simp
qed simp

fun join_sp :: "string list \<Rightarrow> string" where
  "join_sp [] = []"
| "join_sp [w] = w"
| "join_sp (w # w' # ws) = w @ CHR '' '' # join_sp (w' # ws)"

text \<open>
  The prefixes that \<open>safeUrl\<close> lets through, and the scheme of a URL in the sense
  of RFC 3986: the text before the first colon, when it starts with a letter and
  consists of letters, digits, plus, hyphen and dot.
\<close>

definition allowed_prefixes :: "string list" where
  "allowed_prefixes = [''data:'', ''http://'', ''https://'', ''blob:'', ''/'', ''./'', ''../'']"

definition is_scheme_char :: "char \<Rightarrow> bool" where
  "is_scheme_char c \<longleftrightarrow>
     is_ascii_letter c \<or> is_digit c \<or> c = CHR ''+'' \<or> c = CHR ''-'' \<or> c = CHR ''.''"

definition scheme_of :: "string \<Rightarrow> string option" where
  "scheme_of u =
     (let p = takeWhile (\<lambda>c. c \<noteq> CHR '':'') u
      in if CHR '':'' \<in> set u \<and> p \<noteq> [] \<and> is_ascii_letter (hd p) \<and> list_all is_scheme_char p
         then Some p else None)"

subsection \<open>Sorted results\<close>









section \<open>Properties of the tabular parser\<close>

lemma set_trim_subset: "set (trim s) \<subseteq> set s"
proof -
  have "set (dropWhile is_ws (rev (dropWhile is_ws s))) \<subseteq> set (rev (dropWhile is_ws s))"
    by (meson set_dropWhileD subsetI)
  also have "\<dots> \<subseteq> set s"
    using set_dropWhileD by fastforce
  finally show ?thesis by (simp add: trim_def)
qed

lemma splitCSVLine_loop_no_quote:
  "\<forall>f \<in> set out. DQ \<notin> set f \<Longrightarrow> DQ \<notin> set cur \<Longrightarrow>
   \<forall>f \<in> set (splitCSVLine_loop line out cur inQ). DQ \<notin> set f"
  by (induction line out cur inQ rule: splitCSVLine_loop.induct) auto

lemma splitCSVLine_no_quote: "f \<in> set (splitCSVLine line) \<Longrightarrow> DQ \<notin> set f"
  using splitCSVLine_loop_no_quote [of "[]" "[]" line False] by (simp add: splitCSVLine_def)

lemma set_update_own: "set (update_own r k v) \<subseteq> insert (k, v) (set r)"
  by (induction r k v rule: update_own.induct) auto

lemma set_insert_index: "set (insert_index r k v) = insert (k, v) (set r)"
  by (induction r k v rule: insert_index.induct) auto

lemma set_obj_set: "set (obj_set r k v) \<subseteq> insert (k, v) (set r)"
  using set_update_own [of r k v] by (auto simp: obj_set_def set_insert_index)

lemma fold_obj_set_entries:
  "\<forall>e \<in> set obj. Q e \<Longrightarrow> \<forall>j \<in> set js. Q (kf j, vf j) \<Longrightarrow>
   \<forall>e \<in> set (fold (\<lambda>j obj. obj_set obj (kf j) (vf j)) js obj). Q e"
proof (induction js arbitrary: obj)
  case Nil
  then show ?case by simp
next
  case (Cons j js)
  have "set (obj_set obj (kf j) (vf j)) \<subseteq> insert (kf j, vf j) (set obj)"
    by (rule set_obj_set)
  moreover have "Q (kf j, vf j)"
    using Cons.prems(2) by simp
  ultimately have step: "\<forall>e \<in> set (obj_set obj (kf j) (vf j)). Q e"
    using Cons.prems(1) by blast
  have rest: "\<forall>j \<in> set js. Q (kf j, vf j)"
    using Cons.prems(2) by simp
  from Cons.IH [OF step rest] show ?case by simp
qed

lemma fill_row_entries:
  assumes "e \<in> set (fill_row headers cols)"
  shows "\<exists>j < length headers. e = (trim (headers ! j), if j < length cols then trim (cols ! j) else [])"
proof -
  define Q where "Q e \<longleftrightarrow> (\<exists>j < length headers. e = (trim (headers ! j), if j < length cols then trim (cols ! j) else []))" for e
  have a: "\<forall>e \<in> set ([] :: row). Q e" by simp
  have b: "\<forall>j \<in> set [0 ..< length headers]. Q (trim (headers ! j), if j < length cols then trim (cols ! j) else [])"
    unfolding Q_def by (intro ballI exI conjI) (simp_all)
  have "\<forall>e \<in> set (fold (\<lambda>j obj. obj_set obj (trim (headers ! j)) (if j < length cols then trim (cols ! j) else [])) [0 ..< length headers] []). Q e"
    using a b by (rule fold_obj_set_entries)
  then show ?thesis using assms unfolding fill_row_def Q_def by blast
qed

lemma parseCSV_loop_records:
  "parseCSV_loop headers ls buf outRows =
     outRows @ map (\<lambda>r. fill_row headers (splitCSVLine r))
       (filter (\<lambda>r. length (splitCSVLine r) = length headers) (logical_records ls buf))"
  by (induction ls arbitrary: buf outRows) (simp_all add: Let_def)

lemma parseCSV_rows:
  assumes "r \<in> set (parseCSV text)"
  shows "\<exists>rec. length (splitCSVLine rec) = length (splitCSVLine (hd (split_lines text))) \<and>
            r = fill_row (splitCSVLine (hd (split_lines text))) (splitCSVLine rec)"
  using assms by (auto simp: parseCSV_def Let_def parseCSV_loop_records)

text \<open>
  C8: no field returned by \<open>splitCSVLine\<close> contains a double quote, and so no cell
  value of a Table returned by \<open>parseCSV\<close> does: every double quote of the input is
  consumed as a delimiter, a doubled quote included.
\<close>

theorem no_quote_in_output:
  "(\<forall>f \<in> set (splitCSVLine line). DQ \<notin> set f) \<and>
   (\<forall>r \<in> set (parseCSV text). \<forall>e \<in> set r. DQ \<notin> set (snd e))"
proof (intro conjI ballI)
  fix f assume "f \<in> set (splitCSVLine line)"
  then show "DQ \<notin> set f" by (rule splitCSVLine_no_quote)
next
  fix r e assume r: "r \<in> set (parseCSV text)" and e: "e \<in> set r"
  from parseCSV_rows [OF r] obtain rec where
    len: "length (splitCSVLine rec) = length (splitCSVLine (hd (split_lines text)))" and
    row: "r = fill_row (splitCSVLine (hd (split_lines text))) (splitCSVLine rec)"
    by blast
  from fill_row_entries [OF e [unfolded row]] len obtain j where
    j: "j < length (splitCSVLine rec)" and
    eq: "e = (trim (splitCSVLine (hd (split_lines text)) ! j), trim (splitCSVLine rec ! j))"
    by auto
  have "DQ \<notin> set (splitCSVLine rec ! j)"
    using j splitCSVLine_no_quote [of "splitCSVLine rec ! j" rec] by simp
  then have "DQ \<notin> set (trim (splitCSVLine rec ! j))"
    using set_trim_subset by blast
  then show "DQ \<notin> set (snd e)" by (simp add: eq)
qed

theorem no_quote_in_output_witness:
  "splitCSVLine [CHR ''a'', DQ, COMMA, DQ, DQ, CHR ''b''] = [''a,b''] \<and>
   DQ \<notin> set (hd (splitCSVLine [CHR ''a'', DQ, COMMA, DQ, DQ, CHR ''b''])) \<and>
   parseCSV (''H'' @ [LF, DQ, CHR ''x'', DQ]) = [[(''H'', ''x'')]] \<and>
   DQ \<notin> set (snd (hd (hd (parseCSV (''H'' @ [LF, DQ, CHR ''x'', DQ])))))"
proof -
  let ?line = "[CHR ''a'', DQ, COMMA, DQ, DQ, CHR ''b'']"
  let ?text = "''H'' @ [LF, DQ, CHR ''x'', DQ]"
  have 1: "splitCSVLine ?line = [''a,b'']" by code_simp
  have 2: "parseCSV ?text = [[(''H'', ''x'')]]" by code_simp
  have 3: "hd (splitCSVLine ?line) \<in> set (splitCSVLine ?line)"
    unfolding 1 by simp
  have 4: "hd (parseCSV ?text) \<in> set (parseCSV ?text)"
    unfolding 2 by simp
  have 5: "hd (hd (parseCSV ?text)) \<in> set (hd (parseCSV ?text))"
    unfolding 2 by simp
  note inst = no_quote_in_output [of ?line ?text]
  have 6: "DQ \<notin> set (hd (splitCSVLine ?line))"
    using inst 3 by blast
  have 8: "DQ \<notin> set (snd (hd (hd (parseCSV ?text))))"
    using inst 4 5 by blast
  show ?thesis using 1 2 6 8 by blast
qed

lemma comma_fields_not_Nil: "comma_fields l \<noteq> []"
  by (induction l) (auto split: list.splits)

lemma splitCSVLine_loop_plain:
  "DQ \<notin> set l \<Longrightarrow>
   splitCSVLine_loop l out cur False = out @ (cur @ hd (comma_fields l)) # tl (comma_fields l)"
proof (induction l arbitrary: out cur)
  case Nil
  then show ?case by simp
next
  case (Cons c cs)
  then show ?case
    using comma_fields_not_Nil [of cs] by (cases "comma_fields cs") auto
qed

lemma splitCSVLine_plain: "DQ \<notin> set l \<Longrightarrow> splitCSVLine l = comma_fields l"
  using splitCSVLine_loop_plain [of l "[]" "[]"] comma_fields_not_Nil [of l]
  by (simp add: splitCSVLine_def)

lemma split_lines_not_Nil: "split_lines s \<noteq> []"
  by (induction s rule: split_lines.induct) (auto split: list.splits)

lemma split_lines_chars: "l \<in> set (split_lines s) \<Longrightarrow> set l \<subseteq> set s"
proof (induction s arbitrary: l rule: split_lines.induct)
  case 1
  then show ?case by simp
next
  case (2 c)
  then show ?case by (auto split: if_splits)
next
  case (3 c d cs)
  show ?case
  proof (cases "c = LF")
    case True
    with 3 show ?thesis by auto
  next
    case nlf: False
    show ?thesis
    proof (cases "c = CR \<and> d = LF")
      case True
      with nlf 3 show ?thesis by auto
    next
      case False
      obtain x xs where sp: "split_lines (d # cs) = x # xs"
        using split_lines_not_Nil [of "d # cs"] by (cases "split_lines (d # cs)") auto
      from "3.prems" nlf False sp have "l = c # x \<or> l \<in> set xs" by auto
      then show ?thesis
      proof
        assume "l = c # x"
        moreover have "set x \<subseteq> set (d # cs)" using "3.IH"(3) [OF nlf False, of x] sp by simp
        ultimately show ?thesis by auto
      next
        assume "l \<in> set xs"
        then have "set l \<subseteq> set (d # cs)" using "3.IH"(3) [OF nlf False, of l] sp by simp
        then show ?thesis by auto
      qed
    qed
  qed
qed

lemma count_quotes_plain: "DQ \<notin> set l \<Longrightarrow> count_quotes l = 0"
  by (induction l) (auto simp: count_quotes_def)

lemma logical_records_plain:
  "\<forall>l \<in> set ls. DQ \<notin> set l \<Longrightarrow> logical_records ls [] = ls"
  by (induction ls) (simp_all add: count_quotes_plain)

lemma parseCSV_records:
  "parseCSV text = record_rows (csv_headers text) (logical_records (csv_body text) [])"
  by (simp add: parseCSV_def Let_def parseCSV_loop_records record_rows_def csv_headers_def
        csv_body_def)


lemma keys_update_own: "keys (update_own r k v) = keys r"
  by (induction r k v rule: update_own.induct) (auto simp: keys_def)

lemma set_keys_insert_index: "set (keys (insert_index r k v)) = insert k (set (keys r))"
  by (induction r k v rule: insert_index.induct) (auto simp: keys_def)

lemma set_keys_obj_set:
  "set (keys (obj_set r k v)) = (if k = ''__proto__'' then set (keys r) else insert k (set (keys r)))"
  by (auto simp: obj_set_def keys_update_own set_keys_insert_index) (auto simp: keys_def)

lemma set_keys_fold_obj_set:
  "set (keys (fold (\<lambda>j obj. obj_set obj (kf j) (vf j)) js obj)) =
     set (keys obj) \<union> (kf ` set js - {''__proto__''})"
  by (induction js arbitrary: obj) (auto simp: set_keys_obj_set)

lemma map_nth_comp: "map (\<lambda>j. f (xs ! j)) [0 ..< length xs] = map f xs"
  by (rule nth_equalityI) simp_all

lemma set_keys_fill_row:
  "set (keys (fill_row headers cols)) = set (map trim headers) - {''__proto__''}"
proof -
  have "(\<lambda>j. trim (headers ! j)) ` set [0 ..< length headers] = set (map trim headers)"
    using map_nth_comp [of trim headers] by (metis set_map)
  then show ?thesis
    unfolding fill_row_def
    by (simp only: set_keys_fold_obj_set [where kf = "\<lambda>j. trim (headers ! j)"]) (simp add: keys_def)
qed

lemma map_of_update_own:
  "map_of (update_own r k v) x = (if x = k \<and> k \<in> set (keys r) then Some v else map_of r x)"
  by (induction r k v rule: update_own.induct) (force simp: keys_def)+

lemma map_of_insert_index:
  "k \<notin> set (keys r) \<Longrightarrow> map_of (insert_index r k v) x = (if x = k then Some v else map_of r x)"
  by (induction r k v rule: insert_index.induct) (auto simp: keys_def)

lemma map_of_append_new:
  "k \<notin> set (keys r) \<Longrightarrow> map_of (r @ [(k, v)]) x = (if x = k then Some v else map_of r x)"
  by (induction r) (auto simp: keys_def)

lemma map_of_obj_set:
  "map_of (obj_set r k v) x = (if k \<noteq> ''__proto__'' \<and> x = k then Some v else map_of r x)"
  by (simp add: obj_set_def map_of_update_own map_of_insert_index map_of_append_new
        del: map_of_append)

lemma map_of_fold_obj_set_other:
  "k \<notin> kf ` set js \<Longrightarrow>
   map_of (fold (\<lambda>j obj. obj_set obj (kf j) (vf j)) js obj) k = map_of obj k"
  by (induction js arbitrary: obj) (auto simp: map_of_obj_set)

lemma map_of_fold_obj_set_distinct:
  "distinct (map kf js) \<Longrightarrow> j \<in> set js \<Longrightarrow> kf j \<noteq> ''__proto__'' \<Longrightarrow>
   map_of (fold (\<lambda>j obj. obj_set obj (kf j) (vf j)) js obj) (kf j) = Some (vf j)"
proof (induction js arbitrary: obj)
  case Nil
  then show ?case by simp
next
  case (Cons i js)
  show ?case
  proof (cases "j = i")
    case True
    have "kf i \<notin> kf ` set js" using Cons.prems(1) by auto
    then show ?thesis
      using Cons.prems(3) True by (simp add: map_of_fold_obj_set_other map_of_obj_set)
  next
    case False
    then have "j \<in> set js" using Cons.prems(2) by simp
    moreover have "distinct (map kf js)" using Cons.prems(1) by simp
    ultimately show ?thesis using Cons.IH Cons.prems(3) by simp
  qed
qed

lemma map_of_fill_row:
  assumes "distinct (map trim headers)" and "j < length headers"
    and "trim (headers ! j) \<noteq> ''__proto__''"
  shows "map_of (fill_row headers cols) (trim (headers ! j)) =
           Some (if j < length cols then trim (cols ! j) else [])"
proof -
  have d: "distinct (map (\<lambda>j. trim (headers ! j)) [0 ..< length headers])"
    using assms(1) by (simp only: map_nth_comp)
  have m: "j \<in> set [0 ..< length headers]" using assms(2) by simp
  show ?thesis
    unfolding fill_row_def
    using map_of_fold_obj_set_distinct [where kf = "\<lambda>j. trim (headers ! j)"
        and vf = "\<lambda>j. if j < length cols then trim (cols ! j) else []", OF d m assms(3)]
    by simp
qed


lemma record_rows_append: "record_rows hs (xs @ ys) = record_rows hs xs @ record_rows hs ys"
  by (simp add: record_rows_def)

lemma record_rows_bad:
  "length (splitCSVLine bad) \<noteq> length hs \<Longrightarrow> record_rows hs (bad # post) = record_rows hs post"
  by (simp add: record_rows_def)

text \<open>
  C3: the Table is made of the logical records whose quote-aware field count equals
  the header's column count, in order. A record with another count contributes no
  row: the Table is the rows of the records before it followed by the rows of the
  records after it, and every row comes from a record of exactly the header's count,
  so nothing is padded or truncated.
\<close>

theorem malformed_records_dropped:
  "parseCSV text = record_rows (csv_headers text) (logical_records (csv_body text) []) \<and>
   (\<forall>pre bad post.
      logical_records (csv_body text) [] = pre @ bad # post \<and>
      length (splitCSVLine bad) \<noteq> length (csv_headers text) \<longrightarrow>
      parseCSV text = record_rows (csv_headers text) pre @ record_rows (csv_headers text) post) \<and>
   (\<forall>r \<in> set (parseCSV text).
      \<exists>rec \<in> set (logical_records (csv_body text) []).
        length (splitCSVLine rec) = length (csv_headers text) \<and>
        r = fill_row (csv_headers text) (splitCSVLine rec))"
proof (intro conjI allI impI ballI)
  show "parseCSV text = record_rows (csv_headers text) (logical_records (csv_body text) [])"
    by (rule parseCSV_records)
next
  fix pre bad post
  assume a: "logical_records (csv_body text) [] = pre @ bad # post \<and>
             length (splitCSVLine bad) \<noteq> length (csv_headers text)"
  then show "parseCSV text =
      record_rows (csv_headers text) pre @ record_rows (csv_headers text) post"
    by (simp add: parseCSV_records record_rows_append record_rows_bad)
next
  fix r assume "r \<in> set (parseCSV text)"
  then show "\<exists>rec \<in> set (logical_records (csv_body text) []).
        length (splitCSVLine rec) = length (csv_headers text) \<and>
        r = fill_row (csv_headers text) (splitCSVLine rec)"
    unfolding parseCSV_records record_rows_def by auto
qed

theorem malformed_records_dropped_witness:
  "logical_records (csv_body (''A,B'' @ [LF] @ ''1,2'' @ [LF] @ ''3'' @ [LF] @ ''4,5,6'' @ [LF] @ ''7,8'')) []
     = [''1,2''] @ ''3'' # [''4,5,6'', ''7,8''] \<and>
   length (splitCSVLine ''3'') \<noteq>
     length (csv_headers (''A,B'' @ [LF] @ ''1,2'' @ [LF] @ ''3'' @ [LF] @ ''4,5,6'' @ [LF] @ ''7,8'')) \<and>
   parseCSV (''A,B'' @ [LF] @ ''1,2'' @ [LF] @ ''3'' @ [LF] @ ''4,5,6'' @ [LF] @ ''7,8'')
     = record_rows [''A'', ''B''] [''1,2''] @ record_rows [''A'', ''B''] [''4,5,6'', ''7,8''] \<and>
   parseCSV (''A,B'' @ [LF] @ ''1,2'' @ [LF] @ ''3'' @ [LF] @ ''4,5,6'' @ [LF] @ ''7,8'')
     = [[(''A'', ''1''), (''B'', ''2'')], [(''A'', ''7''), (''B'', ''8'')]]"
proof -
  let ?text = "''A,B'' @ [LF] @ ''1,2'' @ [LF] @ ''3'' @ [LF] @ ''4,5,6'' @ [LF] @ ''7,8''"
  have h: "csv_headers ?text = [''A'', ''B'']" by code_simp
  have 1: "logical_records (csv_body ?text) [] = [''1,2''] @ ''3'' # [''4,5,6'', ''7,8'']"
    by code_simp
  have 2: "length (splitCSVLine ''3'') \<noteq> length (csv_headers ?text)"
    by code_simp
  have 3: "parseCSV ?text =
      record_rows (csv_headers ?text) [''1,2''] @ record_rows (csv_headers ?text) [''4,5,6'', ''7,8'']"
    using malformed_records_dropped [of ?text] 1 2 by blast
  have 4: "parseCSV ?text = [[(''A'', ''1''), (''B'', ''2'')], [(''A'', ''7''), (''B'', ''8'')]]"
    by code_simp
  show ?thesis using 1 2 3 4 unfolding h by blast
qed


lemma join_lf_Cons: "xs \<noteq> [] \<Longrightarrow> join_lf (l # xs) = l @ [LF] @ join_lf xs"
  by (cases xs) simp_all

lemma logical_records_join:
  "ls \<noteq> [] \<Longrightarrow>
   \<forall>n. 0 < n \<and> n < length ls \<longrightarrow> count_quotes (buf @ join_lf (take n ls)) mod 2 \<noteq> 0 \<Longrightarrow>
   count_quotes (buf @ join_lf ls) mod 2 = 0 \<Longrightarrow>
   logical_records (ls @ rest) buf = (buf @ join_lf ls) # logical_records rest []"
proof (induction ls arbitrary: buf)
  case Nil
  then show ?case by simp
next
  case (Cons l ls)
  show ?case
  proof (cases "ls = []")
    case True
    with Cons.prems(3) show ?thesis by simp
  next
    case False
    then have "0 < (1::nat) \<and> 1 < length (l # ls)" by (cases ls) simp_all
    then have "count_quotes (buf @ join_lf (take 1 (l # ls))) mod 2 \<noteq> 0"
      using Cons.prems(2) by blast
    then have odd1: "count_quotes (buf @ l) mod 2 \<noteq> 0" by simp
    have pre: "\<forall>n. 0 < n \<and> n < length ls \<longrightarrow>
                 count_quotes ((buf @ l @ [LF]) @ join_lf (take n ls)) mod 2 \<noteq> 0"
    proof (intro allI impI)
      fix n assume n: "0 < n \<and> n < length ls"
      then have "0 < Suc n \<and> Suc n < length (l # ls)" by simp
      then have "count_quotes (buf @ join_lf (take (Suc n) (l # ls))) mod 2 \<noteq> 0"
        using Cons.prems(2) by blast
      moreover have "take n ls \<noteq> []" using n False by (cases ls; cases n) simp_all
      ultimately show "count_quotes ((buf @ l @ [LF]) @ join_lf (take n ls)) mod 2 \<noteq> 0"
        by (simp add: join_lf_Cons)
    qed
    have fin: "count_quotes ((buf @ l @ [LF]) @ join_lf ls) mod 2 = 0"
      using Cons.prems(3) False by (simp add: join_lf_Cons)
    have "logical_records (ls @ rest) (buf @ l @ [LF]) =
            ((buf @ l @ [LF]) @ join_lf ls) # logical_records rest []"
      using Cons.IH [OF False pre fin] .
    then show ?thesis using odd1 False by (simp add: join_lf_Cons)
  qed
qed

text \<open>
  C2: physical lines \<open>ls\<close> that leave the quote count of the buffer odd until the
  last one makes it even are joined, with a line feed between them, into one logical
  record. The loop pushes at most one row for it, and exactly one when the record has
  the header's field count.
\<close>

theorem multiline_record_single_row:
  assumes "ls \<noteq> []"
    and "\<forall>n. 0 < n \<and> n < length ls \<longrightarrow> count_quotes (join_lf (take n ls)) mod 2 \<noteq> 0"
    and "count_quotes (join_lf ls) mod 2 = 0"
  shows "logical_records (ls @ rest) [] = join_lf ls # logical_records rest [] \<and>
         parseCSV_loop hs (ls @ rest) [] out =
           parseCSV_loop hs rest [] (out @ record_rows hs [join_lf ls]) \<and>
         length (record_rows hs [join_lf ls]) \<le> 1 \<and>
         (length (splitCSVLine (join_lf ls)) = length hs \<longrightarrow>
            record_rows hs [join_lf ls] = [fill_row hs (splitCSVLine (join_lf ls))])"
proof -
  have rec: "logical_records (ls @ rest) [] = join_lf ls # logical_records rest []"
    using logical_records_join [of ls "[]" rest] assms by simp
  have "parseCSV_loop hs (ls @ rest) [] out =
          out @ record_rows hs (join_lf ls # logical_records rest [])"
    by (simp add: parseCSV_loop_records rec record_rows_def)
  also have "\<dots> = (out @ record_rows hs [join_lf ls]) @ record_rows hs (logical_records rest [])"
    using record_rows_append [of hs "[join_lf ls]" "logical_records rest []"] by simp
  also have "\<dots> = parseCSV_loop hs rest [] (out @ record_rows hs [join_lf ls])"
    by (simp add: parseCSV_loop_records record_rows_def)
  finally have loop: "parseCSV_loop hs (ls @ rest) [] out =
      parseCSV_loop hs rest [] (out @ record_rows hs [join_lf ls])" .
  show ?thesis using rec loop by (simp add: record_rows_def)
qed

theorem multiline_record_single_row_witness:
  "join_lf [[CHR ''A'', COMMA, DQ, CHR ''x''], [CHR ''y'', DQ]] =
     [CHR ''A'', COMMA, DQ, CHR ''x'', LF, CHR ''y'', DQ] \<and>
   logical_records ([[CHR ''A'', COMMA, DQ, CHR ''x''], [CHR ''y'', DQ]] @ [''B,z'']) [] =
     [[CHR ''A'', COMMA, DQ, CHR ''x'', LF, CHR ''y'', DQ], ''B,z''] \<and>
   record_rows [''Name'', ''Note''] [join_lf [[CHR ''A'', COMMA, DQ, CHR ''x''], [CHR ''y'', DQ]]] =
     [[(''Name'', ''A''), (''Note'', [CHR ''x'', LF, CHR ''y''])]] \<and>
   parseCSV (''Name,Note'' @ [LF, CHR ''A'', COMMA, DQ, CHR ''x'', LF, CHR ''y'', DQ, LF] @ ''B,z'') =
     [[(''Name'', ''A''), (''Note'', [CHR ''x'', LF, CHR ''y''])],
      [(''Name'', ''B''), (''Note'', ''z'')]]"
proof -
  let ?ls = "[[CHR ''A'', COMMA, DQ, CHR ''x''], [CHR ''y'', DQ]]"
  let ?hs = "[''Name'', ''Note'']"
  have a: "?ls \<noteq> []" by simp
  have b: "\<forall>n. 0 < n \<and> n < length ?ls \<longrightarrow> count_quotes (join_lf (take n ?ls)) mod 2 \<noteq> 0"
  proof (intro allI impI)
    fix n :: nat assume "0 < n \<and> n < length ?ls"
    then have "n = 1" by simp
    then show "count_quotes (join_lf (take n ?ls)) mod 2 \<noteq> 0"
      by (simp add: count_quotes_def)
  qed
  have c: "count_quotes (join_lf ?ls) mod 2 = 0" by (simp add: count_quotes_def)
  note inst = multiline_record_single_row [OF a b c, of "[''B,z'']" ?hs "[]"]
  have j: "join_lf ?ls = [CHR ''A'', COMMA, DQ, CHR ''x'', LF, CHR ''y'', DQ]" by simp
  have n: "length (splitCSVLine (join_lf ?ls)) = length ?hs" by code_simp
  have f: "fill_row ?hs (splitCSVLine (join_lf ?ls)) =
             [(''Name'', ''A''), (''Note'', [CHR ''x'', LF, CHR ''y''])]" by code_simp
  have 1: "logical_records (?ls @ [''B,z'']) [] =
             [[CHR ''A'', COMMA, DQ, CHR ''x'', LF, CHR ''y'', DQ], ''B,z'']"
    using inst j by (simp add: count_quotes_def)
  have 2: "record_rows ?hs [join_lf ?ls] =
             [[(''Name'', ''A''), (''Note'', [CHR ''x'', LF, CHR ''y''])]]"
    using inst n f by metis
  have 3: "parseCSV (''Name,Note'' @ [LF, CHR ''A'', COMMA, DQ, CHR ''x'', LF, CHR ''y'', DQ, LF] @ ''B,z'') =
     [[(''Name'', ''A''), (''Note'', [CHR ''x'', LF, CHR ''y''])],
      [(''Name'', ''B''), (''Note'', ''z'')]]"
    by code_simp
  show ?thesis using j 1 2 3 by blast
qed


lemma record_rows_plain:
  assumes "\<forall>l \<in> set ls. DQ \<notin> set l" and "DQ \<notin> set h"
    and "\<forall>l \<in> set ls. length (comma_fields l) = length (comma_fields h)"
  shows "record_rows (splitCSVLine h) ls = map (\<lambda>l. fill_row (comma_fields h) (comma_fields l)) ls"
proof -
  have h: "splitCSVLine h = comma_fields h" using assms(2) by (rule splitCSVLine_plain)
  have "filter (\<lambda>r. length (splitCSVLine r) = length (comma_fields h)) ls = ls"
    using assms(1,3) by (simp add: splitCSVLine_plain)
  moreover have "map (\<lambda>r. fill_row (comma_fields h) (splitCSVLine r)) ls =
                 map (\<lambda>l. fill_row (comma_fields h) (comma_fields l)) ls"
    using assms(1) by (simp add: splitCSVLine_plain)
  ultimately show ?thesis by (simp add: record_rows_def h)
qed

lemma parseCSV_plain:
  assumes "DQ \<notin> set text"
    and "\<forall>l \<in> set (csv_body text). length (comma_fields l) = length (comma_fields (hd (split_lines text)))"
  shows "parseCSV text =
           map (\<lambda>l. fill_row (comma_fields (hd (split_lines text))) (comma_fields l)) (csv_body text)"
proof -
  have all: "\<forall>l \<in> set (split_lines text). DQ \<notin> set l"
    using assms(1) split_lines_chars by blast
  have hd_in: "hd (split_lines text) \<in> set (split_lines text)"
    using split_lines_not_Nil by simp
  have body: "\<forall>l \<in> set (csv_body text). DQ \<notin> set l"
    using all split_lines_not_Nil [of "text"] unfolding csv_body_def
    by (metis list.set_sel(2))
  have h: "DQ \<notin> set (hd (split_lines text))" using all hd_in by blast
  have "parseCSV text = record_rows (splitCSVLine (hd (split_lines text))) (csv_body text)"
    using body by (simp add: parseCSV_records logical_records_plain csv_headers_def)
  then show ?thesis using record_rows_plain [OF body h assms(2)] by simp
qed

text \<open>
  C4: the inner loop assigns one key per header, \<open>obj[headers[j].trim()] = ...\<close>, but
  for a header column named \<open>__proto__\<close> the assignment creates no property: the row
  lacks that key, and the invariant fails on the code.
\<close>

theorem row_keys_proto_header:
  "parseCSV (''__proto__,B'' @ [LF] @ ''1,2'') = [[(''B'', ''2'')]] \<and>
   map trim (csv_headers (''__proto__,B'' @ [LF] @ ''1,2'')) = [''__proto__'', ''B''] \<and>
   set (keys (hd (parseCSV (''__proto__,B'' @ [LF] @ ''1,2'')))) \<noteq>
     set (map trim (csv_headers (''__proto__,B'' @ [LF] @ ''1,2'')))"
proof -
  let ?text = "''__proto__,B'' @ [LF] @ ''1,2''"
  have 1: "parseCSV ?text = [[(''B'', ''2'')]]" by code_simp
  have 2: "map trim (csv_headers ?text) = [''__proto__'', ''B'']" by code_simp
  have 3: "set (keys (hd (parseCSV ?text))) \<noteq> set (map trim (csv_headers ?text))"
    unfolding 1 2 by (simp add: keys_def)
  show ?thesis using 1 2 3 by blast
qed

text \<open>
  The failure is confined to that name: the keys of every row are the trimmed header
  names without \<open>__proto__\<close>.
\<close>

lemma row_keys_other_headers:
  "\<forall>r \<in> set (parseCSV s). set (keys r) = set (map trim (csv_headers s)) - {''__proto__''}"
proof
  fix r assume "r \<in> set (parseCSV s)"
  then obtain rec where "r = fill_row (csv_headers s) (splitCSVLine rec)"
    using parseCSV_rows [of r s] by (auto simp: csv_headers_def)
  then show "set (keys r) = set (map trim (csv_headers s)) - {''__proto__''}"
    by (simp only: set_keys_fill_row)
qed

section \<open>Properties of the tolerant accessor\<close>

lemma map_of_key: "k \<in> set (keys r) \<Longrightarrow> \<exists>v. map_of r k = Some v"
  by (induction r) (auto simp: keys_def)

lemma map_of_not_key: "k \<notin> set (keys r) \<Longrightarrow> map_of r k = None"
  by (induction r) (auto simp: keys_def)

lemma getVal_keys_find:
  "set ks \<subseteq> set (keys row) \<Longrightarrow>
   getVal_keys row l ks =
     (case find (\<lambda>k. toLowerCase k = l) ks of
        Some k \<Rightarrow> Some (Str (the (map_of row k)))
      | None \<Rightarrow> None)"
proof (induction ks)
  case Nil
  then show ?case by simp
next
  case (Cons k ks)
  then obtain v where "map_of row k = Some v" using map_of_key [of k row] by auto
  then show ?case using Cons by (simp add: get_property_def)
qed

text \<open>
  C5: \<open>getVal\<close> tests a candidate with \<open>n in row\<close>, which also holds for the names
  that every row inherits from \<open>Object.prototype\<close>. For such a candidate it returns
  the inherited member instead of a column value or the empty string, on the empty row
  and on a parsed row alike. The case-insensitive path beside it reads
  \<open>Object.keys(row)\<close> and does not see inherited names: the same name in capitals
  gives the empty string.
\<close>

theorem getVal_inherited_name:
  "getVal [] [''constructor''] = Inherited ''constructor'' \<and>
   first_match [] [''constructor''] = [] \<and>
   getVal [] [''constructor''] \<noteq> Str (first_match [] [''constructor'']) \<and>
   parseCSV (''Institute'' @ [LF] @ ''A'') = [[(''Institute'', ''A'')]] \<and>
   getVal [(''Institute'', ''A'')] [''toString'', ''Institute''] = Inherited ''toString'' \<and>
   first_match [(''Institute'', ''A'')] [''toString'', ''Institute''] = ''A'' \<and>
   getVal [] [''CONSTRUCTOR''] = Str []"
proof -
  have 1: "getVal [] [''constructor''] = Inherited ''constructor''" by code_simp
  have 2: "first_match [] [''constructor''] = []" by code_simp
  have 3: "parseCSV (''Institute'' @ [LF] @ ''A'') = [[(''Institute'', ''A'')]]" by code_simp
  have 4: "getVal [(''Institute'', ''A'')] [''toString'', ''Institute''] = Inherited ''toString''"
    by code_simp
  have 5: "first_match [(''Institute'', ''A'')] [''toString'', ''Institute''] = ''A''"
    by code_simp
  have 6: "getVal [] [''CONSTRUCTOR''] = Str []" by code_simp
  show ?thesis unfolding 1 2 using 3 4 5 6 by simp
qed

text \<open>
  For candidates that are not inherited names the accessor keeps its contract: it
  returns the value of the first candidate that matches (exact key match first, then
  case-insensitive match across the row's keys), and the empty string when none does.
\<close>

lemma getVal_first_match:
  assumes "\<forall>n \<in> set names. n \<in> set proto_names \<longrightarrow> n \<in> set (keys row)"
  shows "getVal row names = Str (first_match row names)"
  using assms
proof (induction names)
  case Nil
  then show ?case by simp
next
  case (Cons n names)
  have ih: "getVal row names = Str (first_match row names)"
    using Cons by simp
  show ?case
  proof (cases "n \<in> set (keys row)")
    case True
    then obtain v where "map_of row n = Some v" using map_of_key by blast
    then show ?thesis using True
      by (simp add: has_property_def get_property_def candidate_match_def)
  next
    case False
    then have np: "n \<notin> set proto_names" using Cons.prems by simp
    have none: "map_of row n = None" using False by (rule map_of_not_key)
    have hp: "\<not> has_property row n" using False np by (simp add: has_property_def)
    show ?thesis
    proof (cases "find (\<lambda>k. toLowerCase k = toLowerCase n) (keys row)")
      case None
      then show ?thesis using hp none ih
        by (simp add: getVal_keys_find candidate_match_def)
    next
      case (Some k)
      then have "k \<in> set (keys row)" by (auto simp: find_Some_iff)
      then obtain v where v: "map_of row k = Some v" using map_of_key by blast
      then show ?thesis using hp none Some
        by (simp add: getVal_keys_find candidate_match_def)
    qed
  qed
qed

lemma find_lower_unique:
  assumes "inj_on toLowerCase (set ks)" and "a \<in> set ks"
  shows "find (\<lambda>k. toLowerCase k = toLowerCase a) ks = Some a"
proof -
  from assms(2) obtain k where f: "find (\<lambda>k. toLowerCase k = toLowerCase a) ks = Some k"
    by (cases "find (\<lambda>k. toLowerCase k = toLowerCase a) ks") (auto simp: find_None_iff)
  then have "k \<in> set ks" and "toLowerCase k = toLowerCase a"
    by (auto simp: find_Some_iff)
  then have "k = a" using assms by (auto dest: inj_onD)
  then show ?thesis using f by simp
qed

text \<open>
  C6 as stated fails twice: \<open>getVal\<close> does not trim its candidates, so a candidate
  with surrounding whitespace misses the key; and an exact match wins over a
  case-insensitive one, so on a row with the keys \<open>a\<close> and \<open>A\<close> the two names give
  different values.
\<close>

theorem getVal_case_whitespace_counterexample:
  "toLowerCase (trim ''A'') = toLowerCase (trim '' A'') \<and>
   getVal [(''A'', ''1'')] [''A''] \<noteq> getVal [(''A'', ''1'')] ['' A''] \<and>
   toLowerCase (trim ''a'') = toLowerCase (trim ''A'') \<and>
   getVal [(''a'', ''1''), (''A'', ''2'')] [''a''] \<noteq> getVal [(''a'', ''1''), (''A'', ''2'')] [''A'']"
proof -
  have 1: "toLowerCase (trim ''A'') = toLowerCase (trim '' A'')" by code_simp
  have 2: "getVal [(''A'', ''1'')] [''A''] = Str ''1''" by code_simp
  have 3: "getVal [(''A'', ''1'')] ['' A''] = Str []" by code_simp
  have 4: "toLowerCase (trim ''a'') = toLowerCase (trim ''A'')" by code_simp
  have 5: "getVal [(''a'', ''1''), (''A'', ''2'')] [''a''] = Str ''1''" by code_simp
  have 6: "getVal [(''a'', ''1''), (''A'', ''2'')] [''A''] = Str ''2''" by code_simp
  show ?thesis unfolding 2 3 5 6 using 1 4 by simp
qed

text \<open>
  C6, as amended: on a row no two keys of which differ only in letter case, two
  names that differ only in letter case, neither the name of an inherited property,
  give the same value.
\<close>

theorem getVal_case_insensitive:
  assumes "inj_on toLowerCase (set (keys row))"
    and "toLowerCase a = toLowerCase b"
    and "a \<notin> set proto_names" and "b \<notin> set proto_names"
  shows "getVal row [a] = getVal row [b]"
proof -
  have one: "getVal row [n] = (case find (\<lambda>k. toLowerCase k = toLowerCase n) (keys row) of
                Some k \<Rightarrow> Str (the (map_of row k)) | None \<Rightarrow> Str [])"
    if "n \<notin> set proto_names" for n
  proof (cases "n \<in> set (keys row)")
    case True
    then obtain v where "map_of row n = Some v" using map_of_key by blast
    then show ?thesis
      using True find_lower_unique [OF assms(1) True]
      by (simp add: has_property_def get_property_def)
  next
    case False
    then have "\<not> has_property row n" using that by (simp add: has_property_def)
    then show ?thesis
      by (simp add: getVal_keys_find split: option.splits)
  qed
  show ?thesis using one [OF assms(3)] one [OF assms(4)] assms(2) by simp
qed

theorem getVal_case_insensitive_witness:
  "inj_on toLowerCase (set (keys [(''Institute'', ''IIT''), (''program'', ''CS'')])) \<and>
   toLowerCase ''PROGRAM'' = toLowerCase ''program'' \<and>
   ''PROGRAM'' \<notin> set proto_names \<and> ''program'' \<notin> set proto_names \<and>
   getVal [(''Institute'', ''IIT''), (''program'', ''CS'')] [''PROGRAM''] =
     getVal [(''Institute'', ''IIT''), (''program'', ''CS'')] [''program''] \<and>
   getVal [(''Institute'', ''IIT''), (''program'', ''CS'')] [''PROGRAM''] = Str ''CS''"
proof -
  let ?row = "[(''Institute'', ''IIT''), (''program'', ''CS'')]"
  have l1: "toLowerCase ''Institute'' = ''institute''" by code_simp
  have l2: "toLowerCase ''program'' = ''program''" by code_simp
  have l3: "toLowerCase ''PROGRAM'' = ''program''" by code_simp
  have a: "inj_on toLowerCase (set (keys ?row))"
    by (simp add: keys_def l1 l2)
  have b: "toLowerCase ''PROGRAM'' = toLowerCase ''program''" by (simp add: l2 l3)
  have c: "''PROGRAM'' \<notin> set proto_names" by (simp add: proto_names_def)
  have d: "''program'' \<notin> set proto_names" by (simp add: proto_names_def)
  have e: "getVal ?row [''PROGRAM''] = getVal ?row [''program'']"
    using getVal_case_insensitive [OF a b c d] .
  have f: "getVal ?row [''PROGRAM''] = Str ''CS''" by code_simp
  show ?thesis using a b c d e f by blast
qed

section \<open>Properties of the name normalizer\<close>

declare ws_words.simps [simp del]

lemma char_eq_code: "c = d \<longleftrightarrow> (of_char c :: nat) = of_char d"
  by (simp add: of_char_eq_iff)

lemma is_ws_code:
  "is_ws c \<longleftrightarrow> (of_char c :: nat) \<in> {9, 10, 11, 12, 13, 32, 160}"
  unfolding is_ws_def by (simp add: char_eq_code [of c])

lemma of_char_lower_char:
  "(of_char (lower_char c) :: nat) =
     (let n = (of_char c :: nat)
      in if (65 \<le> n \<and> n \<le> 90) \<or> (192 \<le> n \<and> n \<le> 222 \<and> n \<noteq> 215) then n + 32 else n)"
  by (auto simp: lower_char_def Let_def)

lemma lower_char_idem: "lower_char (lower_char c) = lower_char c"
  unfolding char_eq_code [of "lower_char (lower_char c)"]
  by (subst of_char_lower_char) (auto simp: of_char_lower_char Let_def)

lemma is_ws_lower_char: "is_ws (lower_char c) \<longleftrightarrow> is_ws c"
  unfolding is_ws_code by (auto simp: of_char_lower_char Let_def)

lemma toLowerCase_idem: "toLowerCase (toLowerCase s) = toLowerCase s"
  by (simp add: toLowerCase_def lower_char_idem)

lemma trim_trimEnd: "trim s = trimEnd (dropWhile is_ws s)"
  by (simp add: trim_def trimEnd_def)

lemma trimEnd_Nil: "trimEnd [] = []"
  by (simp add: trimEnd_def)

lemma trimEnd_append:
  "trimEnd (x @ y) = (if \<forall>c \<in> set y. is_ws c then trimEnd x else x @ trimEnd y)"
  by (simp add: trimEnd_def dropWhile_append)

lemma trimEnd_append_ws: "\<forall>c \<in> set y. is_ws c \<Longrightarrow> trimEnd (x @ y) = trimEnd x"
  by (simp add: trimEnd_append)

lemma trimEnd_append_nws: "\<not> (\<forall>c \<in> set y. is_ws c) \<Longrightarrow> trimEnd (x @ y) = x @ trimEnd y"
  by (auto simp: trimEnd_append)

lemma trimEnd_all_ws: "\<forall>c \<in> set y. is_ws c \<Longrightarrow> trimEnd y = []"
  by (simp add: trimEnd_def)

lemma trimEnd_Cons:
  "trimEnd (c # cs) = (if \<forall>x \<in> set (c # cs). is_ws x then [] else c # trimEnd cs)"
  using trimEnd_append [of "[c]" cs] by (auto simp: trimEnd_def)

lemma trimEnd_no_ws: "\<forall>c \<in> set x. \<not> is_ws c \<Longrightarrow> trimEnd x = x"
  by (induction x) (auto simp: trimEnd_Cons trimEnd_Nil)

lemma collapse_ws_no_ws: "\<forall>c \<in> set x. \<not> is_ws c \<Longrightarrow> collapse_ws (x @ y) = x @ collapse_ws y"
  by (induction x) auto

lemma dropWhile_trimEnd: "dropWhile is_ws (trimEnd y) = trimEnd (dropWhile is_ws y)"
proof (induction y)
  case Nil
  then show ?case by (simp add: trimEnd_Nil)
next
  case (Cons a y)
  show ?case
  proof (cases "\<forall>x \<in> set (a # y). is_ws x")
    case True
    have 1: "trimEnd (a # y) = []" using True by (rule trimEnd_all_ws)
    have 2: "dropWhile is_ws (a # y) = []" using True by simp
    show ?thesis unfolding 1 2 by (simp add: trimEnd_Nil)
  next
    case False
    then show ?thesis using Cons by (auto simp: trimEnd_Cons)
  qed
qed


lemma collapse_ws_ws_head:
  "is_ws c \<Longrightarrow> collapse_ws (c # y) = CHR '' '' # collapse_ws (dropWhile is_ws (c # y))"
  by simp

lemma ws_words_Nil: "dropWhile is_ws s = [] \<Longrightarrow> ws_words s = []"
  by (subst ws_words.simps) (simp only: list.case)

lemma ws_words_Cons:
  "dropWhile is_ws s = c # cs \<Longrightarrow>
   ws_words s = (c # takeWhile (\<lambda>x. \<not> is_ws x) cs) # ws_words (dropWhile (\<lambda>x. \<not> is_ws x) cs)"
  by (subst ws_words.simps) (simp only: list.case)

lemma ws_words_Nil_iff: "ws_words s = [] \<longleftrightarrow> (\<forall>c \<in> set s. is_ws c)"
proof (cases "dropWhile is_ws s")
  case Nil
  then show ?thesis using ws_words_Nil [OF Nil] by simp
next
  case (Cons c cs)
  have "c \<in> set s" using Cons by (metis list.set_intros(1) set_dropWhileD)
  moreover have "\<not> is_ws c" using Cons by (metis hd_dropWhile list.distinct(1) list.sel(1))
  ultimately show ?thesis using ws_words_Cons [OF Cons] by auto
qed

lemma collapse_trim_words: "collapse_ws (trim s) = join_sp (ws_words s)"
proof (induction s rule: ws_words.induct)
  case (1 s)
  show ?case
  proof (cases "dropWhile is_ws s")
    case Nil
    then show ?thesis
      using ws_words_Nil [OF Nil] by (simp only: trim_trimEnd trimEnd_Nil collapse_ws.simps join_sp.simps)
  next
    case (Cons c cs)
    define a where "a = takeWhile (\<lambda>x. \<not> is_ws x) cs"
    define rest where "rest = dropWhile (\<lambda>x. \<not> is_ws x) cs"
    have nc: "\<not> is_ws c" using Cons by (metis hd_dropWhile list.distinct(1) list.sel(1))
    have na: "\<forall>x \<in> set (c # a). \<not> is_ws x"
      using nc unfolding a_def by (auto dest: set_takeWhileD)
    have split: "dropWhile is_ws s = (c # a) @ rest"
      unfolding Cons a_def rest_def by simp
    have ih: "collapse_ws (trim rest) = join_sp (ws_words rest)"
      using "1.IH" [OF Cons] unfolding rest_def .
    have words: "ws_words s = (c # a) # ws_words rest"
      unfolding a_def rest_def by (rule ws_words_Cons [OF Cons])
    show ?thesis
    proof (cases "\<forall>x \<in> set rest. is_ws x")
      case True
      then have "ws_words rest = []" by (simp add: ws_words_Nil_iff)
      moreover have "trim s = c # a"
      proof -
        have "trimEnd ((c # a) @ rest) = trimEnd (c # a)"
          by (rule trimEnd_append_ws [OF True])
        then show ?thesis
          unfolding trim_trimEnd split using trimEnd_no_ws [OF na] by simp
      qed
      moreover have "collapse_ws (c # a) = c # a"
        using collapse_ws_no_ws [OF na, of "[]"] by simp
      ultimately show ?thesis by (simp add: words)
    next
      case False
      then obtain r rs where rest_eq: "rest = r # rs" by (cases rest) auto
      have wr: "is_ws r"
        using rest_eq unfolding rest_def by (metis hd_dropWhile list.distinct(1) list.sel(1))
      have ne: "ws_words rest \<noteq> []" using False by (simp add: ws_words_Nil_iff)
      have t: "trim s = (c # a) @ trimEnd rest"
        unfolding trim_trimEnd split by (rule trimEnd_append_nws [OF False])
      have te: "trimEnd rest = r # trimEnd rs"
        using False unfolding rest_eq by (simp add: trimEnd_Cons)
      have "collapse_ws (trimEnd rest) = CHR '' '' # collapse_ws (dropWhile is_ws (trimEnd rest))"
        unfolding te using wr by simp
      also have "dropWhile is_ws (trimEnd rest) = trim rest"
        by (simp add: dropWhile_trimEnd trim_trimEnd)
      finally have c2: "collapse_ws (trimEnd rest) = CHR '' '' # join_sp (ws_words rest)"
        by (simp add: ih)
      have "collapse_ws (trim s) = (c # a) @ collapse_ws (trimEnd rest)"
        unfolding t using collapse_ws_no_ws [OF na] by simp
      also have "\<dots> = (c # a) @ CHR '' '' # join_sp (ws_words rest)"
        by (simp add: c2)
      also have "\<dots> = join_sp ((c # a) # ws_words rest)"
        using ne by (cases "ws_words rest") simp_all
      finally show ?thesis by (simp add: words)
    qed
  qed
qed

lemma toLowerCase_join_sp: "toLowerCase (join_sp ws) = join_sp (map toLowerCase ws)"
proof (induction ws rule: join_sp.induct)
  case (3 w w' ws)
  have sp: "lower_char (CHR '' '') = CHR '' ''" by code_simp
  from 3 show ?case by (simp add: toLowerCase_def sp)
qed (simp_all add: toLowerCase_def)

lemma ws_words_ws_head: "is_ws c \<Longrightarrow> ws_words (c # s) = ws_words s"
  by (cases "dropWhile is_ws s") (simp_all add: ws_words_Nil ws_words_Cons)

lemma ws_words_word:
  assumes "w \<noteq> []" and "\<forall>c \<in> set w. \<not> is_ws c" and "y = [] \<or> is_ws (hd y)"
  shows "ws_words (w @ y) = w # ws_words y"
proof -
  obtain c cs where w: "w = c # cs" using assms(1) by (cases w) auto
  have d: "dropWhile is_ws (w @ y) = c # cs @ y" using assms(2) w by simp
  have tk: "takeWhile (\<lambda>x. \<not> is_ws x) (cs @ y) = cs"
    using assms(2,3) w by (cases y) (auto simp: takeWhile_append)
  have dr: "dropWhile (\<lambda>x. \<not> is_ws x) (cs @ y) = y"
    using assms(2,3) w by (cases y) (auto simp: dropWhile_append)
  show ?thesis
    using ws_words_Cons [OF d] by (simp add: tk dr w)
qed

lemma ws_words_join_sp:
  "\<forall>w \<in> set ws. w \<noteq> [] \<and> (\<forall>c \<in> set w. \<not> is_ws c) \<Longrightarrow> ws_words (join_sp ws) = ws"
proof (induction ws rule: join_sp.induct)
  case 1
  then show ?case by (simp add: ws_words_Nil_iff)
next
  case (2 w)
  then show ?case using ws_words_word [of w "[]"] by (simp add: ws_words_Nil_iff)
next
  case (3 w w' ws)
  have sp: "is_ws (CHR '' '')" by (simp add: is_ws_def)
  have "ws_words (w @ CHR '' '' # join_sp (w' # ws)) = w # ws_words (CHR '' '' # join_sp (w' # ws))"
    using 3(2) sp by (intro ws_words_word) simp_all
  then show ?case using 3 sp by (simp add: ws_words_ws_head)
qed

lemma ws_words_props: "w \<in> set (ws_words s) \<Longrightarrow> w \<noteq> [] \<and> (\<forall>c \<in> set w. \<not> is_ws c)"
proof (induction s rule: ws_words.induct)
  case (1 s)
  show ?case
  proof (cases "dropWhile is_ws s")
    case Nil
    then have "ws_words s = []" by (rule ws_words_Nil)
    then show ?thesis using "1.prems" by simp
  next
    case (Cons c cs)
    have nc: "\<not> is_ws c" using Cons by (metis hd_dropWhile list.distinct(1) list.sel(1))
    have "ws_words s = (c # takeWhile (\<lambda>x. \<not> is_ws x) cs) # ws_words (dropWhile (\<lambda>x. \<not> is_ws x) cs)"
      by (rule ws_words_Cons [OF Cons])
    then have "w = c # takeWhile (\<lambda>x. \<not> is_ws x) cs \<or> w \<in> set (ws_words (dropWhile (\<lambda>x. \<not> is_ws x) cs))"
      using "1.prems" by simp
    then show ?thesis
    proof
      assume "w = c # takeWhile (\<lambda>x. \<not> is_ws x) cs"
      then show ?thesis using nc by (auto dest: set_takeWhileD)
    next
      assume "w \<in> set (ws_words (dropWhile (\<lambda>x. \<not> is_ws x) cs))"
      then show ?thesis by (rule "1.IH" [OF Cons])
    qed
  qed
qed


lemma normalizeName_words:
  "normalizeName (JsString s) = join_sp (map toLowerCase (ws_words s))"
  by (simp add: normalizeName_def collapse_trim_words toLowerCase_join_sp)

lemma lower_words_props:
  "w \<in> set (map toLowerCase (ws_words s)) \<Longrightarrow> w \<noteq> [] \<and> (\<forall>c \<in> set w. \<not> is_ws c)"
  using ws_words_props [of _ s] by (auto simp: toLowerCase_def is_ws_lower_char)

lemma ws_words_normalizeName:
  "ws_words (normalizeName (JsString s)) = map toLowerCase (ws_words s)"
  unfolding normalizeName_words
  by (rule ws_words_join_sp) (use lower_words_props in blast)

text \<open>
  C7: \<open>normalizeName\<close> returns the empty string for \<open>undefined\<close> and \<open>null\<close>, and
  otherwise the string form of its argument trimmed, with every run of whitespace
  collapsed to one space, and lowercased: the lowercased words joined by single
  spaces. It is idempotent, and two strings have the same normal form exactly when
  their words agree up to letter case.
\<close>

theorem normalizeName_canonical:
  "normalizeName JsUndefined = [] \<and> normalizeName JsNull = [] \<and>
   normalizeName (JsOther s) = normalizeName (JsString s) \<and>
   normalizeName (JsString s) = toLowerCase (collapse_ws (trim s)) \<and>
   normalizeName (JsString s) = join_sp (map toLowerCase (ws_words s)) \<and>
   normalizeName (JsString (normalizeName v)) = normalizeName v \<and>
   (normalizeName (JsString s) = normalizeName (JsString t) \<longleftrightarrow>
      map toLowerCase (ws_words s) = map toLowerCase (ws_words t))"
proof -
  have idem: "normalizeName (JsString (normalizeName (JsString u))) = normalizeName (JsString u)" for u
  proof -
    have "normalizeName (JsString (normalizeName (JsString u))) =
            join_sp (map toLowerCase (ws_words (normalizeName (JsString u))))"
      by (rule normalizeName_words)
    also have "\<dots> = join_sp (map toLowerCase (map toLowerCase (ws_words u)))"
      by (simp only: ws_words_normalizeName)
    also have "\<dots> = join_sp (map toLowerCase (ws_words u))"
      by (simp add: toLowerCase_idem comp_def)
    finally show ?thesis by (simp add: normalizeName_words)
  qed
  have empty: "normalizeName (JsString []) = []"
    by (simp add: normalizeName_def trim_def toLowerCase_def)
  have other: "normalizeName (JsOther u) = normalizeName (JsString u)" for u
    by (simp add: normalizeName_def)
  have all: "normalizeName (JsString (normalizeName v)) = normalizeName v"
  proof (cases v)
    case JsUndefined
    then show ?thesis using empty by (simp add: normalizeName_def)
  next
    case JsNull
    then show ?thesis using empty by (simp add: normalizeName_def)
  next
    case (JsString u)
    then show ?thesis using idem by simp
  next
    case (JsOther u)
    then show ?thesis using idem [of u] other by simp
  qed
  have iff: "normalizeName (JsString s) = normalizeName (JsString t) \<longleftrightarrow>
               map toLowerCase (ws_words s) = map toLowerCase (ws_words t)"
  proof
    assume "normalizeName (JsString s) = normalizeName (JsString t)"
    then have "ws_words (normalizeName (JsString s)) = ws_words (normalizeName (JsString t))"
      by simp
    then show "map toLowerCase (ws_words s) = map toLowerCase (ws_words t)"
      by (simp only: ws_words_normalizeName)
  next
    assume "map toLowerCase (ws_words s) = map toLowerCase (ws_words t)"
    then show "normalizeName (JsString s) = normalizeName (JsString t)"
      by (simp only: normalizeName_words)
  qed
  show ?thesis
    using all iff other normalizeName_words [of s]
    by (simp add: normalizeName_def)
qed

theorem normalizeName_canonical_witness:
  "normalizeName (JsString (''  IIT'' @ [CHR 0x09, LF] @ ''  Bombay '')) = ''iit bombay'' \<and>
   normalizeName (JsString ''iit bombay'') = ''iit bombay'' \<and>
   map toLowerCase (ws_words (''  IIT'' @ [CHR 0x09, LF] @ ''  Bombay '')) =
     map toLowerCase (ws_words ''iit BOMBAY'') \<and>
   normalizeName (JsString (''  IIT'' @ [CHR 0x09, LF] @ ''  Bombay '')) =
     normalizeName (JsString ''iit BOMBAY'')"
proof -
  let ?s = "''  IIT'' @ [CHR 0x09, LF] @ ''  Bombay ''"
  let ?t = "''iit BOMBAY''"
  note inst = normalizeName_canonical [where s = ?s and t = ?t and v = "JsString ?s"]
  have 1: "normalizeName (JsString ?s) = ''iit bombay''" by code_simp
  have "normalizeName (JsString (normalizeName (JsString ?s))) = normalizeName (JsString ?s)"
    using inst by blast
  then have 2: "normalizeName (JsString ''iit bombay'') = ''iit bombay''"
    by (simp only: 1)
  have 3: "map toLowerCase (ws_words ?s) = map toLowerCase (ws_words ?t)" by code_simp
  have 4: "normalizeName (JsString ?s) = normalizeName (JsString ?t)"
    using inst 3 by blast
  show ?thesis using 1 2 3 4 by blast
qed

section \<open>Regular CSV texts\<close>

lemma blank_is_ws: "blank c \<longleftrightarrow> is_ws c"
  by (simp add: blank_def is_ws_code)

lemma trimEnd_split: "t = trimEnd t @ rev (takeWhile is_ws (rev t))"
proof -
  have "t = rev (takeWhile is_ws (rev t) @ dropWhile is_ws (rev t))"
    by (simp only: takeWhile_dropWhile_id rev_rev_ident)
  also have "\<dots> = rev (dropWhile is_ws (rev t)) @ rev (takeWhile is_ws (rev t))"
    by (rule rev_append)
  finally show ?thesis by (simp only: trimEnd_def)
qed

lemma trimEnd_last_nws:
  assumes "v \<noteq> []" and "\<not> is_ws (last v)"
  shows "trimEnd v = v"
proof -
  obtain x xs where r: "rev v = x # xs" using assms(1) by (cases "rev v") auto
  have "x = last v" using r by (metis hd_rev assms(1) list.sel(1))
  then have "dropWhile is_ws (x # xs) = x # xs" using assms(2) by simp
  then have "dropWhile is_ws (rev v) = rev v" by (simp only: r)
  then show ?thesis by (simp add: trimEnd_def)
qed

lemma last_trimEnd: "trimEnd t \<noteq> [] \<Longrightarrow> \<not> is_ws (last (trimEnd t))"
  unfolding trimEnd_def by (simp add: last_rev hd_dropWhile)

lemma hd_trimEnd: "trimEnd t \<noteq> [] \<Longrightarrow> hd (trimEnd t) = hd t"
  by (cases t) (auto simp: trimEnd_Cons trimEnd_Nil split: if_splits)

lemma trimmed_form_trim: "trimmed_form s (trim s)"
proof -
  let ?t = "dropWhile is_ws s"
  have s: "s = takeWhile is_ws s @ ?t" by simp
  have t: "?t = trimEnd ?t @ rev (takeWhile is_ws (rev ?t))" by (rule trimEnd_split)
  have 1: "s = takeWhile is_ws s @ trim s @ rev (takeWhile is_ws (rev ?t))"
    using s t by (metis trim_trimEnd)
  have 2: "list_all blank (takeWhile is_ws s)"
    by (auto simp: list_all_iff blank_is_ws dest: set_takeWhileD)
  have 3: "list_all blank (rev (takeWhile is_ws (rev ?t)))"
    by (auto simp: list_all_iff blank_is_ws dest: set_takeWhileD)
  have 4: "trim s = [] \<or> (\<not> blank (hd (trim s)) \<and> \<not> blank (last (trim s)))"
  proof (cases "trim s = []")
    case True
    then show ?thesis by simp
  next
    case False
    then have ne: "trimEnd ?t \<noteq> []" by (simp add: trim_trimEnd)
    have tne: "?t \<noteq> []"
    proof
      assume "?t = []"
      then have "trimEnd ?t = []" by (simp only: trimEnd_Nil)
      with ne show False by simp
    qed
    have "\<not> is_ws (hd ?t)" using tne by (rule hd_dropWhile)
    then have "\<not> is_ws (hd (trim s))" using hd_trimEnd [OF ne] by (simp add: trim_trimEnd)
    moreover have "\<not> is_ws (last (trim s))" using last_trimEnd [OF ne] by (simp add: trim_trimEnd)
    ultimately show ?thesis by (simp add: blank_is_ws)
  qed
  show ?thesis unfolding trimmed_form_def using 1 2 3 4 by blast
qed

lemma trimmed_form_unique:
  assumes "trimmed_form s v"
  shows "v = trim s"
proof -
  from assms obtain pre post where s: "s = pre @ v @ post"
    and pre: "\<forall>c \<in> set pre. is_ws c" and post: "\<forall>c \<in> set post. is_ws c"
    and v: "v = [] \<or> (\<not> is_ws (hd v) \<and> \<not> is_ws (last v))"
    unfolding trimmed_form_def by (auto simp: list_all_iff blank_is_ws)
  show ?thesis
  proof (cases "v = []")
    case True
    then have "\<forall>c \<in> set s. is_ws c" using s pre post by auto
    then have dd: "dropWhile is_ws s = []" by simp
    show ?thesis unfolding trim_trimEnd dd using True by (simp add: trimEnd_Nil)
  next
    case False
    then have h: "\<not> is_ws (hd v)" and l: "\<not> is_ws (last v)" using v by auto
    have d: "dropWhile is_ws s = v @ post"
      unfolding s using pre False h by (cases v) (simp_all add: dropWhile_append)
    have "trimEnd (v @ post) = trimEnd v" by (rule trimEnd_append_ws [OF post])
    also have "trimEnd v = v"
      using False l by (rule trimEnd_last_nws)
    finally show ?thesis by (simp add: trim_trimEnd d)
  qed
qed

lemma split_lines_newline_end:
  "s \<noteq> [] \<Longrightarrow> last s = LF \<Longrightarrow> \<exists>ls. ls \<noteq> [] \<and> split_lines s = ls @ [[]]"
proof (induction s rule: split_lines.induct)
  case 1
  then show ?case by simp
next
  case (2 c)
  then have "split_lines [c] = [[]] @ [[]]" by simp
  then show ?case by blast
next
  case (3 c d cs)
  have l: "last (d # cs) = LF" using "3.prems" by simp
  show ?case
  proof (cases "c = LF")
    case True
    from "3.IH"(1) [OF True _ l] obtain ls where "ls \<noteq> []" "split_lines (d # cs) = ls @ [[]]"
      by auto
    then have "split_lines (c # d # cs) = ([] # ls) @ [[]]" using True by simp
    then show ?thesis by blast
  next
    case nlf: False
    show ?thesis
    proof (cases "c = CR \<and> d = LF")
      case True
      show ?thesis
      proof (cases "cs = []")
        case e: True
        have "split_lines (c # d # cs) = [[]] @ [[]]" using nlf True e by simp
        then show ?thesis by blast
      next
        case False
        then have "last cs = LF" using l by simp
        from "3.IH"(2) [OF nlf True False this] obtain ls where
          "ls \<noteq> []" "split_lines cs = ls @ [[]]" by auto
        then have "split_lines (c # d # cs) = ([] # ls) @ [[]]" using nlf True by simp
        then show ?thesis by blast
      qed
    next
      case False
      from "3.IH"(3) [OF nlf False _ l] obtain ls where
        ls: "ls \<noteq> []" "split_lines (d # cs) = ls @ [[]]" by auto
      then obtain x xs where "ls = x # xs" by (cases ls) auto
      then have "split_lines (c # d # cs) = ((c # x) # xs) @ [[]]"
        using nlf False ls by auto
      then show ?thesis by blast
    qed
  qed
qed


lemma body_lines_newline:
  assumes "ends_with_newline s"
  shows "csv_body s = body_lines s @ [[]]"
proof -
  from assms obtain ls where ls: "ls \<noteq> []" "split_lines s = ls @ [[]]"
    using split_lines_newline_end [of s] by (auto simp: ends_with_newline_def)
  then have "csv_body s = tl ls @ [[]]" by (simp add: csv_body_def)
  then show ?thesis using assms by (simp add: body_lines_def)
qed

lemma record_rows_blank_line:
  "length hs \<noteq> 1 \<Longrightarrow> record_rows hs [[]] = []"
  by (simp add: record_rows_def splitCSVLine_def)

lemma parseCSV_body_lines:
  assumes "DQ \<notin> set s"
    and "\<forall>l \<in> set (body_lines s). length (comma_fields l) = length (comma_fields (hd (split_lines s)))"
  shows "parseCSV s =
           map (\<lambda>l. fill_row (csv_headers s) (comma_fields l)) (body_lines s) @
           (if ends_with_newline s then record_rows (csv_headers s) [[]] else [])"
proof -
  have all: "\<forall>l \<in> set (split_lines s). DQ \<notin> set l"
    using assms(1) split_lines_chars by blast
  have "hd (split_lines s) \<in> set (split_lines s)"
    using split_lines_not_Nil by simp
  then have h: "DQ \<notin> set (hd (split_lines s))" using all by blast
  have hs: "csv_headers s = splitCSVLine (hd (split_lines s))" by (simp add: csv_headers_def)
  have body: "\<forall>l \<in> set (csv_body s). DQ \<notin> set l"
    using all split_lines_not_Nil [of s] unfolding csv_body_def by (metis list.set_sel(2))
  have sub: "set (body_lines s) \<subseteq> set (csv_body s)"
    by (auto simp: body_lines_def dest: in_set_butlastD)
  have bl: "\<forall>l \<in> set (body_lines s). DQ \<notin> set l" using body sub by blast
  have p: "parseCSV s = record_rows (csv_headers s) (csv_body s)"
    using body by (simp add: parseCSV_records logical_records_plain)
  have m: "record_rows (csv_headers s) (body_lines s) =
             map (\<lambda>l. fill_row (csv_headers s) (comma_fields l)) (body_lines s)"
    unfolding hs using record_rows_plain [OF bl h assms(2)] by (simp add: splitCSVLine_plain [OF h])
  show ?thesis
  proof (cases "ends_with_newline s")
    case True
    have "parseCSV s = record_rows (csv_headers s) (body_lines s @ [[]])"
      using p body_lines_newline [OF True] by simp
    then show ?thesis using True m by (simp only: record_rows_append if_True)
  next
    case False
    then have "csv_body s = body_lines s" by (simp add: body_lines_def)
    then show ?thesis using p m False by simp
  qed
qed

text \<open>
  C1: \<open>parseCSV\<close> is to return one row per body line, but for a one-column text
  that ends with a line terminator it returns a row more than there are body lines:
  the empty string after the terminator is a record of one empty field, which matches
  the one-column header, and becomes a row with an empty cell.
\<close>

theorem parseCSV_single_column_newline:
  "DQ \<notin> set (''H'' @ [LF] @ ''x'' @ [LF]) \<and>
   body_lines (''H'' @ [LF] @ ''x'' @ [LF]) = [''x''] \<and>
   length (comma_fields ''x'') = length (comma_fields (hd (split_lines (''H'' @ [LF] @ ''x'' @ [LF])))) \<and>
   parseCSV (''H'' @ [LF] @ ''x'' @ [LF]) = [[(''H'', ''x'')], [(''H'', [])]] \<and>
   length (parseCSV (''H'' @ [LF] @ ''x'' @ [LF])) \<noteq> length (body_lines (''H'' @ [LF] @ ''x'' @ [LF]))"
proof -
  let ?c = "''H'' @ [LF] @ ''x'' @ [LF]"
  have 1: "DQ \<notin> set ?c" by simp
  have 2: "body_lines ?c = [''x'']" by code_simp
  have 3: "length (comma_fields ''x'') = length (comma_fields (hd (split_lines ?c)))" by code_simp
  have 4: "parseCSV ?c = [[(''H'', ''x'')], [(''H'', [])]]" by code_simp
  have 5: "length (parseCSV ?c) \<noteq> length (body_lines ?c)" unfolding 2 4 by simp
  show ?thesis using 1 2 3 4 5 by blast
qed

text \<open>
  The failure is confined to such texts. For a text without quote characters whose
  body lines (a line terminator at the end of the text starts no further body line)
  all have as many comma-separated fields as the header line, and whose header has at
  least two columns or which does not end with a line terminator, \<open>parseCSV\<close>
  returns one row per body line, in source order. Every entry of row \<open>i\<close> is a
  header name with the field of line \<open>i\<close> in the same column, both stripped of the
  whitespace before and after them (\<open>trimmed_form\<close>, which \<open>trim\<close> computes); when
  the trimmed header names are distinct and none is \<open>__proto__\<close>, the cell of row
  \<open>i\<close> under header \<open>j\<close> is the trimmed field \<open>j\<close> of line \<open>i\<close>.
\<close>

lemma parse_regular_csv:
  assumes "DQ \<notin> set s"
    and "\<forall>l \<in> set (body_lines s). length (comma_fields l) = length (comma_fields (hd (split_lines s)))"
  shows "csv_headers s = comma_fields (hd (split_lines s)) \<and>
         (length (csv_headers s) \<noteq> 1 \<or> \<not> ends_with_newline s \<longrightarrow>
            parseCSV s = map (\<lambda>l. fill_row (csv_headers s) (comma_fields l)) (body_lines s) \<and>
            length (parseCSV s) = length (body_lines s)) \<and>
         (\<forall>i < length (body_lines s). \<forall>e \<in> set (parseCSV s ! i).
            \<exists>j < length (csv_headers s).
              e = (trim (csv_headers s ! j), trim (comma_fields (body_lines s ! i) ! j)) \<and>
              trimmed_form (csv_headers s ! j) (fst e) \<and>
              trimmed_form (comma_fields (body_lines s ! i) ! j) (snd e)) \<and>
         (distinct (map trim (csv_headers s)) \<and> ''__proto__'' \<notin> set (map trim (csv_headers s)) \<longrightarrow>
            (\<forall>i < length (body_lines s). \<forall>j < length (csv_headers s).
               map_of (parseCSV s ! i) (trim (csv_headers s ! j)) =
                 Some (trim (comma_fields (body_lines s ! i) ! j)))) \<and>
         (\<forall>u v. trimmed_form u v \<longleftrightarrow> v = trim u)"
proof -
  let ?hs = "csv_headers s"
  let ?body = "body_lines s"
  let ?extra = "if ends_with_newline s then record_rows ?hs [[]] else []"
  have "hd (split_lines s) \<in> set (split_lines s)"
    using split_lines_not_Nil by simp
  then have "DQ \<notin> set (hd (split_lines s))"
    using assms(1) split_lines_chars by blast
  then have hs: "?hs = comma_fields (hd (split_lines s))"
    by (simp add: csv_headers_def splitCSVLine_plain)
  have eq: "parseCSV s = map (\<lambda>l. fill_row ?hs (comma_fields l)) ?body @ ?extra"
    by (rule parseCSV_body_lines [OF assms])
  have whole: "length ?hs \<noteq> 1 \<or> \<not> ends_with_newline s \<longrightarrow>
                 parseCSV s = map (\<lambda>l. fill_row ?hs (comma_fields l)) ?body \<and>
                 length (parseCSV s) = length ?body"
  proof
    assume "length ?hs \<noteq> 1 \<or> \<not> ends_with_newline s"
    then have "?extra = []" using record_rows_blank_line [of ?hs] by auto
    then show "parseCSV s = map (\<lambda>l. fill_row ?hs (comma_fields l)) ?body \<and>
               length (parseCSV s) = length ?body"
      using eq by simp
  qed
  have row: "parseCSV s ! i = fill_row ?hs (comma_fields (?body ! i))" if "i < length ?body" for i
    using that by (simp add: eq nth_append)
  have cnt: "length (comma_fields (?body ! i)) = length ?hs" if "i < length ?body" for i
    using that assms(2) hs by simp
  have entries: "\<forall>i < length ?body. \<forall>e \<in> set (parseCSV s ! i).
          \<exists>j < length ?hs. e = (trim (?hs ! j), trim (comma_fields (?body ! i) ! j)) \<and>
            trimmed_form (?hs ! j) (fst e) \<and>
            trimmed_form (comma_fields (?body ! i) ! j) (snd e)"
  proof (intro allI impI ballI)
    fix i e assume i: "i < length ?body" and e: "e \<in> set (parseCSV s ! i)"
    from e have "e \<in> set (fill_row ?hs (comma_fields (?body ! i)))" by (simp add: row [OF i])
    from fill_row_entries [OF this] obtain j where
      j: "j < length ?hs" and
      "e = (trim (?hs ! j), if j < length (comma_fields (?body ! i))
             then trim (comma_fields (?body ! i) ! j) else [])"
      by blast
    then have "e = (trim (?hs ! j), trim (comma_fields (?body ! i) ! j))"
      using cnt [OF i] by simp
    then show "\<exists>j < length ?hs. e = (trim (?hs ! j), trim (comma_fields (?body ! i) ! j)) \<and>
            trimmed_form (?hs ! j) (fst e) \<and>
            trimmed_form (comma_fields (?body ! i) ! j) (snd e)"
      using j trimmed_form_trim by auto
  qed
  have cells: "distinct (map trim ?hs) \<and> ''__proto__'' \<notin> set (map trim ?hs) \<longrightarrow>
          (\<forall>i < length ?body. \<forall>j < length ?hs.
             map_of (parseCSV s ! i) (trim (?hs ! j)) = Some (trim (comma_fields (?body ! i) ! j)))"
  proof (intro allI impI)
    fix i j
    assume d: "distinct (map trim ?hs) \<and> ''__proto__'' \<notin> set (map trim ?hs)"
      and i: "i < length ?body" and j: "j < length ?hs"
    have np: "trim (?hs ! j) \<noteq> ''__proto__''"
      using d j by (metis length_map nth_map nth_mem)
    have "map_of (fill_row ?hs (comma_fields (?body ! i))) (trim (?hs ! j)) =
            Some (if j < length (comma_fields (?body ! i))
                  then trim (comma_fields (?body ! i) ! j) else [])"
      using d j np by (intro map_of_fill_row) simp_all
    then show "map_of (parseCSV s ! i) (trim (?hs ! j)) =
                 Some (trim (comma_fields (?body ! i) ! j))"
      using cnt [OF i] j by (simp add: row [OF i])
  qed
  have tf: "\<forall>u v. trimmed_form u v \<longleftrightarrow> v = trim u"
    using trimmed_form_trim trimmed_form_unique by blast
  show ?thesis using hs whole entries cells tf by blast
qed

text \<open>
  The two-row example of the specification, and a text with spaces, a tab, a no-break
  space and CRLF line ends.
\<close>

lemma parse_regular_csv_example:
  "DQ \<notin> set ('' Institute ,'' @ [CHR 0x09] @ ''Program'' @ [CR, LF] @ '' A'' @ [CHR 0xA0] @
              '', X '' @ [CR, LF] @ ''B,Y'' @ [CR, LF]) \<and>
   ends_with_newline ('' Institute ,'' @ [CHR 0x09] @ ''Program'' @ [CR, LF] @ '' A'' @ [CHR 0xA0] @
              '', X '' @ [CR, LF] @ ''B,Y'' @ [CR, LF]) \<and>
   body_lines ('' Institute ,'' @ [CHR 0x09] @ ''Program'' @ [CR, LF] @ '' A'' @ [CHR 0xA0] @
              '', X '' @ [CR, LF] @ ''B,Y'' @ [CR, LF]) = ['' A'' @ [CHR 0xA0] @ '', X '', ''B,Y''] \<and>
   csv_headers ('' Institute ,'' @ [CHR 0x09] @ ''Program'' @ [CR, LF] @ '' A'' @ [CHR 0xA0] @
              '', X '' @ [CR, LF] @ ''B,Y'' @ [CR, LF]) = ['' Institute '', [CHR 0x09] @ ''Program''] \<and>
   length (parseCSV ('' Institute ,'' @ [CHR 0x09] @ ''Program'' @ [CR, LF] @ '' A'' @ [CHR 0xA0] @
              '', X '' @ [CR, LF] @ ''B,Y'' @ [CR, LF])) = 2 \<and>
   parseCSV ('' Institute ,'' @ [CHR 0x09] @ ''Program'' @ [CR, LF] @ '' A'' @ [CHR 0xA0] @
              '', X '' @ [CR, LF] @ ''B,Y'' @ [CR, LF]) =
     [[(''Institute'', ''A''), (''Program'', ''X'')], [(''Institute'', ''B''), (''Program'', ''Y'')]] \<and>
   trimmed_form ('' A'' @ [CHR 0xA0]) ''A'' \<and>
   parseCSV (''Institute,Program'' @ [LF] @ ''A,X'' @ [LF] @ ''B,Y'') =
     [[(''Institute'', ''A''), (''Program'', ''X'')], [(''Institute'', ''B''), (''Program'', ''Y'')]]"
proof -
  let ?w = "'' Institute ,'' @ [CHR 0x09] @ ''Program'' @ [CR, LF] @ '' A'' @ [CHR 0xA0] @
              '', X '' @ [CR, LF] @ ''B,Y'' @ [CR, LF]"
  have q: "DQ \<notin> set ?w" by simp
  have nl: "ends_with_newline ?w" by (simp add: ends_with_newline_def)
  have b: "body_lines ?w = ['' A'' @ [CHR 0xA0] @ '', X '', ''B,Y'']" by code_simp
  have h0: "hd (split_lines ?w) = '' Institute ,'' @ [CHR 0x09] @ ''Program''" by code_simp
  have c0: "comma_fields ('' Institute ,'' @ [CHR 0x09] @ ''Program'') =
              ['' Institute '', [CHR 0x09] @ ''Program'']" by code_simp
  have c1: "comma_fields ('' A'' @ [CHR 0xA0] @ '', X '') = ['' A'' @ [CHR 0xA0], '' X '']"
    by code_simp
  have c2: "comma_fields ''B,Y'' = [''B'', ''Y'']" by code_simp
  have n: "\<forall>l \<in> set (body_lines ?w).
             length (comma_fields l) = length (comma_fields (hd (split_lines ?w)))"
    unfolding b h0 c0 using c1 c2 by simp
  note inst = parse_regular_csv [OF q n]
  have h: "csv_headers ?w = ['' Institute '', [CHR 0x09] @ ''Program'']"
    using inst unfolding h0 c0 by blast
  have two: "length (csv_headers ?w) \<noteq> 1 \<or> \<not> ends_with_newline ?w"
    unfolding h by simp
  have len: "length (parseCSV ?w) = length (body_lines ?w)"
    using inst two by blast
  then have len2: "length (parseCSV ?w) = 2" unfolding b by simp
  have ex: "parseCSV ?w =
     [[(''Institute'', ''A''), (''Program'', ''X'')], [(''Institute'', ''B''), (''Program'', ''Y'')]]"
    by code_simp
  have t: "trim ('' A'' @ [CHR 0xA0]) = ''A''" by code_simp
  note tfall = inst [THEN conjunct2, THEN conjunct2, THEN conjunct2, THEN conjunct2]
  have tf: "trimmed_form ('' A'' @ [CHR 0xA0]) ''A''"
    using tfall t by metis
  have ex2: "parseCSV (''Institute,Program'' @ [LF] @ ''A,X'' @ [LF] @ ''B,Y'') =
     [[(''Institute'', ''A''), (''Program'', ''X'')], [(''Institute'', ''B''), (''Program'', ''Y'')]]"
    by code_simp
  show ?thesis using q nl b h len2 ex tf ex2 by blast
qed

section \<open>Properties of safeUrl\<close>

lemma safeUrl_prefix:
  "safeUrl v = [] \<or> (\<exists>p \<in> set allowed_prefixes. startsWith (safeUrl v) p)"
proof (cases v)
  case (JsString s)
  have h: "startsWith (''https://'' @ u) ''https://''" for u
    by (simp add: startsWith_def)
  show ?thesis
    unfolding JsString safeUrl_def allowed_prefixes_def Let_def
    using h [of "trim s"] by (simp del: append.simps)
qed (simp_all add: safeUrl_def)

lemma host_char_not_colon: "is_host_char c \<Longrightarrow> c \<noteq> CHR '':''"
  by (auto simp: is_host_char_def is_ascii_letter_def is_digit_def)

lemma domain_tail_dot: "domain_tail cs \<Longrightarrow> CHR ''.'' \<in> set (takeWhile (\<lambda>c. c \<noteq> CHR '':'') cs)"
  by (induction cs) (auto dest: host_char_not_colon)

lemma domain_shaped_dot: "domain_shaped u \<Longrightarrow> CHR ''.'' \<in> set (takeWhile (\<lambda>c. c \<noteq> CHR '':'') u)"
  by (cases u) (auto simp: domain_shaped_def dest: host_char_not_colon domain_tail_dot)

lemma startsWith_takeWhile:
  "startsWith u (p @ CHR '':'' # q) \<Longrightarrow> CHR '':'' \<notin> set p \<Longrightarrow>
   takeWhile (\<lambda>c. c \<noteq> CHR '':'') u = p"
proof -
  assume a: "startsWith u (p @ CHR '':'' # q)" and b: "CHR '':'' \<notin> set p"
  from a have "u = (p @ CHR '':'' # q) @ drop (length (p @ CHR '':'' # q)) u"
    unfolding startsWith_def by (metis append_take_drop_id)
  then obtain r where "u = p @ CHR '':'' # r" by (metis append.assoc append_Cons)
  then show ?thesis using b by (auto simp: takeWhile_tail)
qed


lemma scheme_not_allowed_prefix:
  assumes "takeWhile (\<lambda>c. c \<noteq> CHR '':'') u \<notin> set [''data'', ''http'', ''https'', ''blob'']"
  shows "\<not> (startsWith u ''data:'' \<or> startsWith u ''http://'' \<or>
            startsWith u ''https://'' \<or> startsWith u ''blob:'')"
proof -
  have "takeWhile (\<lambda>c. c \<noteq> CHR '':'') u = ''data''" if "startsWith u ''data:''"
    using startsWith_takeWhile [of u "''data''" "[]"] that by simp
  moreover have "takeWhile (\<lambda>c. c \<noteq> CHR '':'') u = ''http''" if "startsWith u ''http://''"
    using startsWith_takeWhile [of u "''http''" "''//''"] that by simp
  moreover have "takeWhile (\<lambda>c. c \<noteq> CHR '':'') u = ''https''" if "startsWith u ''https://''"
    using startsWith_takeWhile [of u "''https''" "''//''"] that by simp
  moreover have "takeWhile (\<lambda>c. c \<noteq> CHR '':'') u = ''blob''" if "startsWith u ''blob:''"
    using startsWith_takeWhile [of u "''blob''" "[]"] that by simp
  ultimately show ?thesis using assms by auto
qed

lemma letter_head_not_path:
  assumes "u \<noteq> []" and "is_ascii_letter (hd u)"
  shows "\<not> (startsWith u ''/'' \<or> startsWith u ''./'' \<or> startsWith u ''../'')"
proof -
  have 1: "\<not> is_ascii_letter (CHR ''/'')" by (simp add: is_ascii_letter_def)
  have 2: "\<not> is_ascii_letter (CHR ''.'')" by (simp add: is_ascii_letter_def)
  obtain c cs where u: "u = c # cs" using assms(1) by (cases u) auto
  have "c \<noteq> CHR ''/''" and "c \<noteq> CHR ''.''" using assms(2) 1 2 u by auto
  then show ?thesis by (auto simp: startsWith_def u)
qed

text \<open>
  C10 as stated fails for the registered scheme \<open>iris.beep\<close>: the text
  \<open>iris.beep:x\<close> matches the domain pattern and \<open>safeUrl\<close> returns it with
  \<open>https://\<close> in front, not the empty string.
\<close>

theorem safeUrl_dotted_scheme_counterexample:
  "scheme_of (trim ''iris.beep:x'') = Some ''iris.beep'' \<and>
   ''iris.beep'' \<notin> set [''data'', ''http'', ''https'', ''blob''] \<and>
   safeUrl (JsString ''iris.beep:x'') = ''https://iris.beep:x'' \<and>
   safeUrl (JsString ''iris.beep:x'') \<noteq> []"
proof -
  have 1: "scheme_of (trim ''iris.beep:x'') = Some ''iris.beep''" by code_simp
  have 2: "safeUrl (JsString ''iris.beep:x'') = ''https://iris.beep:x''" by code_simp
  show ?thesis unfolding 1 2 by simp
qed

text \<open>
  C10, as amended: the result of \<open>safeUrl\<close> is empty or begins with one of the
  allowed prefixes; a non-string argument gives the empty string; and so does a
  string whose scheme is none of data, http, https, blob and has no dot in its name
  (such as \<open>javascript:\<close>).
\<close>

theorem safeUrl_allowed:
  "(safeUrl v = [] \<or> (\<exists>p \<in> set allowed_prefixes. startsWith (safeUrl v) p)) \<and>
   ((\<forall>s. v \<noteq> JsString s) \<longrightarrow> safeUrl v = []) \<and>
   (scheme_of (trim s) = Some sch \<and> CHR ''.'' \<notin> set sch \<and>
    sch \<notin> set [''data'', ''http'', ''https'', ''blob''] \<longrightarrow> safeUrl (JsString s) = [])"
proof (intro conjI impI)
  show "safeUrl v = [] \<or> (\<exists>p \<in> set allowed_prefixes. startsWith (safeUrl v) p)"
    by (rule safeUrl_prefix)
next
  assume "\<forall>s. v \<noteq> JsString s"
  then show "safeUrl v = []" by (cases v) (simp_all add: safeUrl_def)
next
  assume a: "scheme_of (trim s) = Some sch \<and> CHR ''.'' \<notin> set sch \<and>
             sch \<notin> set [''data'', ''http'', ''https'', ''blob'']"
  let ?u = "trim s"
  from a have sch: "sch = takeWhile (\<lambda>c. c \<noteq> CHR '':'') ?u" and ne: "sch \<noteq> []"
    and lt: "is_ascii_letter (hd sch)"
    by (auto simp: scheme_of_def Let_def split: if_splits)
  have une: "?u \<noteq> []" using ne sch by auto
  have hd_eq: "hd ?u = hd sch" using ne unfolding sch by (cases ?u) (auto split: if_splits)
  have p1: "\<not> (startsWith ?u ''data:'' \<or> startsWith ?u ''http://'' \<or>
               startsWith ?u ''https://'' \<or> startsWith ?u ''blob:'')"
    using a sch by (intro scheme_not_allowed_prefix) simp
  have p2: "\<not> (startsWith ?u ''/'' \<or> startsWith ?u ''./'' \<or> startsWith ?u ''../'')"
    using une lt hd_eq by (intro letter_head_not_path) simp_all
  have p3: "\<not> domain_shaped ?u"
    using a sch domain_shaped_dot [of ?u] by auto
  show "safeUrl (JsString s) = []"
    unfolding safeUrl_def using p1 p2 p3 by (simp add: Let_def)
qed

theorem safeUrl_allowed_witness:
  "safeUrl (JsString '' example.com/a.png'') = ''https://example.com/a.png'' \<and>
   (\<exists>p \<in> set allowed_prefixes. startsWith (safeUrl (JsString '' example.com/a.png'')) p) \<and>
   safeUrl JsNull = [] \<and>
   scheme_of (trim ''javascript:alert(1)'') = Some ''javascript'' \<and>
   safeUrl (JsString ''javascript:alert(1)'') = []"
proof -
  have 1: "safeUrl (JsString '' example.com/a.png'') = ''https://example.com/a.png''"
    by code_simp
  have 2: "\<exists>p \<in> set allowed_prefixes. startsWith (safeUrl (JsString '' example.com/a.png'')) p"
    using safeUrl_allowed [of "JsString '' example.com/a.png''"] unfolding 1 by blast
  have 3: "safeUrl JsNull = []"
    using safeUrl_allowed [of JsNull] by blast
  have 4: "scheme_of (trim ''javascript:alert(1)'') = Some ''javascript''" by code_simp
  have 5: "CHR ''.'' \<notin> set ''javascript''" by simp
  have 6: "''javascript'' \<notin> set [''data'', ''http'', ''https'', ''blob'']" by simp
  have 7: "safeUrl (JsString ''javascript:alert(1)'') = []"
    using safeUrl_allowed [where s = "''javascript:alert(1)''" and sch = "''javascript''"] 4 5 6
    by blast
  show ?thesis using 1 2 3 4 7 by blast
qed

section \<open>Properties of applyClientSort\<close>

lemma mset_insert_sorted: "mset (insert_sorted cmp x ys) = add_mset x (mset ys)"
  by (induction ys) simp_all

lemma mset_stable_sort: "mset (stable_sort cmp xs) = mset xs"
  unfolding stable_sort_def by (induction xs) (simp_all add: mset_insert_sorted)

lemma set_insert_sorted: "set (insert_sorted cmp x ys) = insert x (set ys)"
  by (induction ys) auto

lemma set_stable_sort: "set (stable_sort cmp xs) = set xs"
  using mset_stable_sort [of cmp xs] by (metis set_mset_mset)



lemma array_sort_consistent:
  "consistent_on cmp xs \<Longrightarrow> array_sort engine cmp xs = stable_sort cmp xs"
  by (simp add: array_sort_def)












lemma consistent_refl:
  "consistent_on cmp zs \<Longrightarrow> a \<in> set zs \<Longrightarrow> sort_sign (cmp a a) = 0"
  unfolding consistent_on_def by blast

lemma consistent_sym:
  "consistent_on cmp zs \<Longrightarrow> a \<in> set zs \<Longrightarrow> b \<in> set zs \<Longrightarrow>
   sort_sign (cmp a b) = 0 \<Longrightarrow> sort_sign (cmp b a) = 0"
  unfolding consistent_on_def by blast

lemma consistent_trans_eq:
  "consistent_on cmp zs \<Longrightarrow> a \<in> set zs \<Longrightarrow> b \<in> set zs \<Longrightarrow> c \<in> set zs \<Longrightarrow>
   sort_sign (cmp a b) = 0 \<Longrightarrow> sort_sign (cmp b c) = 0 \<Longrightarrow> sort_sign (cmp a c) = 0"
  unfolding consistent_on_def by blast

lemma consistent_trans_less:
  "consistent_on cmp zs \<Longrightarrow> a \<in> set zs \<Longrightarrow> b \<in> set zs \<Longrightarrow> c \<in> set zs \<Longrightarrow>
   sort_sign (cmp a b) < 0 \<Longrightarrow> sort_sign (cmp b c) < 0 \<Longrightarrow> sort_sign (cmp a c) < 0"
  unfolding consistent_on_def by blast

lemma consistent_trans_greater:
  "consistent_on cmp zs \<Longrightarrow> a \<in> set zs \<Longrightarrow> b \<in> set zs \<Longrightarrow> c \<in> set zs \<Longrightarrow>
   0 < sort_sign (cmp a b) \<Longrightarrow> 0 < sort_sign (cmp b c) \<Longrightarrow> 0 < sort_sign (cmp a c)"
  unfolding consistent_on_def by blast

lemma consistent_greater_less:
  assumes "consistent_on cmp zs" and "a \<in> set zs" and "b \<in> set zs"
    and "0 < sort_sign (cmp a b)"
  shows "sort_sign (cmp b a) < 0"
proof (rule ccontr)
  assume "\<not> sort_sign (cmp b a) < 0"
  then consider "sort_sign (cmp b a) = 0" | "0 < sort_sign (cmp b a)" by linarith
  then show False
  proof cases
    case 1
    then have "sort_sign (cmp a b) = 0" using consistent_sym [OF assms(1,3,2)] by simp
    then show False using assms(4) by simp
  next
    case 2
    then have "0 < sort_sign (cmp a a)"
      using consistent_trans_greater [OF assms(1,2,3,2) assms(4)] by simp
    then show False using consistent_refl [OF assms(1,2)] by simp
  qed
qed

lemma consistent_le_trans:
  assumes c: "consistent_on cmp zs" and x: "x \<in> set zs" and y: "y \<in> set zs" and z: "z \<in> set zs"
    and xy: "sort_sign (cmp x y) \<le> 0" and yz: "sort_sign (cmp y z) \<le> 0"
  shows "sort_sign (cmp x z) \<le> 0"
proof (rule ccontr)
  assume "\<not> sort_sign (cmp x z) \<le> 0"
  then have xz: "0 < sort_sign (cmp x z)" by simp
  then have zx: "sort_sign (cmp z x) < 0" by (rule consistent_greater_less [OF c x z])
  consider "sort_sign (cmp x y) < 0" "sort_sign (cmp y z) < 0"
    | "sort_sign (cmp x y) = 0" "sort_sign (cmp y z) = 0"
    | "sort_sign (cmp x y) = 0" "sort_sign (cmp y z) < 0"
    | "sort_sign (cmp x y) < 0" "sort_sign (cmp y z) = 0"
    using xy yz by linarith
  then show False
  proof cases
    case 1
    then have "sort_sign (cmp x z) < 0" by (rule consistent_trans_less [OF c x y z])
    then show False using xz by simp
  next
    case 2
    then have "sort_sign (cmp x z) = 0" by (rule consistent_trans_eq [OF c x y z])
    then show False using xz by simp
  next
    case 3
    have "sort_sign (cmp y x) < 0" using consistent_trans_less [OF c y z x 3(2) zx] .
    moreover have "sort_sign (cmp y x) = 0" using consistent_sym [OF c x y 3(1)] .
    ultimately show False by simp
  next
    case 4
    have "sort_sign (cmp z y) < 0" using consistent_trans_less [OF c z x y zx 4(1)] .
    moreover have "sort_sign (cmp z y) = 0" using consistent_sym [OF c y z 4(2)] .
    ultimately show False by simp
  qed
qed

lemma insert_sorted_sorted:
  assumes c: "consistent_on cmp zs" and x: "x \<in> set zs"
  shows "set ys \<subseteq> set zs \<Longrightarrow> sorted_wrt (\<lambda>a b. sort_sign (cmp a b) \<le> 0) ys \<Longrightarrow>
         sorted_wrt (\<lambda>a b. sort_sign (cmp a b) \<le> 0) (insert_sorted cmp x ys)"
proof (induction ys)
  case Nil
  then show ?case by simp
next
  case (Cons y ys)
  have y: "y \<in> set zs" and sub: "set ys \<subseteq> set zs" using Cons.prems(1) by auto
  have srt: "sorted_wrt (\<lambda>a b. sort_sign (cmp a b) \<le> 0) ys"
    and yall: "\<forall>z \<in> set ys. sort_sign (cmp y z) \<le> 0"
    using Cons.prems(2) by auto
  show ?case
  proof (cases "0 < sort_sign (cmp x y)")
    case True
    have "sort_sign (cmp y x) \<le> 0"
      using consistent_greater_less [OF c x y True] by simp
    then have "\<forall>z \<in> set (insert_sorted cmp x ys). sort_sign (cmp y z) \<le> 0"
      using yall by (simp add: set_insert_sorted)
    then show ?thesis using True Cons.IH [OF sub srt] by simp
  next
    case False
    then have xy: "sort_sign (cmp x y) \<le> 0" by simp
    have "\<forall>z \<in> set ys. sort_sign (cmp x z) \<le> 0"
    proof
      fix z assume z: "z \<in> set ys"
      then have "z \<in> set zs" using sub by auto
      then show "sort_sign (cmp x z) \<le> 0"
        using consistent_le_trans [OF c x y _ xy] yall z by blast
    qed
    then show ?thesis using False xy Cons.prems(2) by simp
  qed
qed

lemma stable_sort_sorted:
  assumes "consistent_on cmp zs"
  shows "set xs \<subseteq> set zs \<Longrightarrow> sorted_wrt (\<lambda>a b. sort_sign (cmp a b) \<le> 0) (stable_sort cmp xs)"
proof (induction xs)
  case Nil
  then show ?case by (simp add: stable_sort_def)
next
  case (Cons x xs)
  have x: "x \<in> set zs" and sub: "set xs \<subseteq> set zs" using Cons.prems by auto
  have s: "set (stable_sort cmp xs) \<subseteq> set zs" using sub by (simp add: set_stable_sort)
  from insert_sorted_sorted [OF assms x s Cons.IH [OF sub]]
  show ?case by (simp add: stable_sort_def)
qed

lemma insert_sorted_filter:
  assumes c: "consistent_on cmp zs" and x: "x \<in> set zs" and w: "w \<in> set zs"
  shows "set ys \<subseteq> set zs \<Longrightarrow>
         filter (\<lambda>y. sort_sign (cmp w y) = 0) (insert_sorted cmp x ys) =
           (if sort_sign (cmp w x) = 0 then x # filter (\<lambda>y. sort_sign (cmp w y) = 0) ys
            else filter (\<lambda>y. sort_sign (cmp w y) = 0) ys)"
proof (induction ys)
  case Nil
  then show ?case by simp
next
  case (Cons y ys)
  have y: "y \<in> set zs" and sub: "set ys \<subseteq> set zs" using Cons.prems by auto
  show ?case
  proof (cases "0 < sort_sign (cmp x y)")
    case True
    have "\<not> (sort_sign (cmp w x) = 0 \<and> sort_sign (cmp w y) = 0)"
    proof
      assume a: "sort_sign (cmp w x) = 0 \<and> sort_sign (cmp w y) = 0"
      then have "sort_sign (cmp x w) = 0" using consistent_sym [OF c w x] by simp
      then have "sort_sign (cmp x y) = 0" using consistent_trans_eq [OF c x w y] a by simp
      then show False using True by simp
    qed
    then show ?thesis using True Cons.IH [OF sub] by auto
  next
    case False
    then show ?thesis by simp
  qed
qed

lemma stable_sort_stable:
  assumes "consistent_on cmp zs" and "w \<in> set zs"
  shows "set xs \<subseteq> set zs \<Longrightarrow>
         filter (\<lambda>y. sort_sign (cmp w y) = 0) (stable_sort cmp xs) =
           filter (\<lambda>y. sort_sign (cmp w y) = 0) xs"
proof (induction xs)
  case Nil
  then show ?case by (simp add: stable_sort_def)
next
  case (Cons x xs)
  have x: "x \<in> set zs" and sub: "set xs \<subseteq> set zs" using Cons.prems by auto
  have s: "set (stable_sort cmp xs) \<subseteq> set zs" using sub by (simp add: set_stable_sort)
  have "filter (\<lambda>y. sort_sign (cmp w y) = 0) (insert_sorted cmp x (stable_sort cmp xs)) =
          (if sort_sign (cmp w x) = 0
           then x # filter (\<lambda>y. sort_sign (cmp w y) = 0) (stable_sort cmp xs)
           else filter (\<lambda>y. sort_sign (cmp w y) = 0) (stable_sort cmp xs))"
    by (rule insert_sorted_filter [OF assms(1) x assms(2) s])
  then show ?case using Cons.IH [OF sub] by (simp add: stable_sort_def)
qed

text \<open>
  Under a consistent comparator \<open>array_sort\<close> returns, whatever the engine, a sorted
  permutation in which the elements that compare equal keep their order: the order
  that ECMAScript requires.
\<close>

lemma array_sort_sorted_stable:
  assumes "consistent_on cmp xs"
  shows "mset (array_sort engine cmp xs) = mset xs \<and>
         sorted_wrt (\<lambda>a b. sort_sign (cmp a b) \<le> 0) (array_sort engine cmp xs) \<and>
         (\<forall>w \<in> set xs. filter (\<lambda>y. sort_sign (cmp w y) = 0) (array_sort engine cmp xs) =
                         filter (\<lambda>y. sort_sign (cmp w y) = 0) xs)"
  using assms stable_sort_sorted [OF assms, of xs] stable_sort_stable [OF assms, of _ xs]
  by (simp add: array_sort_consistent mset_stable_sort)








end
